theory Spec2Isabelle
  imports Main "HOL-Library.Word" "HOL-Library.AList"
begin

section \<open>Python values: strings, bytes and exceptions\<close>

text \<open>
  A Python \<open>str\<close> is a sequence of code points below \<open>0x110000\<close> (lone surrogates
  included); a \<open>bytes\<close> object is a sequence of octets. Every exception the program can
  meet is a value of \<open>exn\<close>; a computation that may raise returns \<open>exn + 'a\<close>, with
  \<open>Inl\<close> the exception that propagates. All of these are subclasses of Python's
  \<open>Exception\<close>.
\<close>

type_synonym byte = "8 word"
type_synonym pystr = "nat list"

datatype exn =
    UnicodeEncodeError
  | UnicodeDecodeError
  | InvalidToken
  | JSONDecodeError
  | RecursionError
  | TypeError

subsection \<open>\<open>str.encode()\<close> and \<open>bytes.decode()\<close>: strict UTF-8\<close>

definition scalar_value :: "nat \<Rightarrow> bool" where
  "scalar_value c = (c < 0xD800 \<or> (0xE000 \<le> c \<and> c < 0x110000))"

definition well_formed :: "pystr \<Rightarrow> bool" where
  "well_formed s = list_all scalar_value s"

definition utf8_encode_cp :: "nat \<Rightarrow> nat list option" where
  "utf8_encode_cp c =
     (if c < 0x80 then Some [c]
      else if c < 0x800 then Some [0xC0 + c div 64, 0x80 + c mod 64]
      else if c < 0x10000 then
        (if 0xD800 \<le> c \<and> c \<le> 0xDFFF then None
         else Some [0xE0 + c div 4096, 0x80 + (c div 64) mod 64, 0x80 + c mod 64])
      else if c < 0x110000 then
        Some [0xF0 + c div 262144, 0x80 + (c div 4096) mod 64,
              0x80 + (c div 64) mod 64, 0x80 + c mod 64]
      else None)"

fun utf8_encode :: "pystr \<Rightarrow> nat list option" where
  "utf8_encode [] = Some []"
| "utf8_encode (c # cs) =
     (case utf8_encode_cp c of
        None \<Rightarrow> None
      | Some bs \<Rightarrow> (case utf8_encode cs of None \<Rightarrow> None | Some r \<Rightarrow> Some (bs @ r)))"

definition str_encode :: "pystr \<Rightarrow> exn + byte list" where
  "str_encode s =
     (case utf8_encode s of
        None \<Rightarrow> Inl UnicodeEncodeError
      | Some bs \<Rightarrow> Inr (map of_nat bs))"

definition continuation :: "nat \<Rightarrow> bool" where
  "continuation b = (0x80 \<le> b \<and> b \<le> 0xBF)"

fun utf8_decode_cp :: "nat list \<Rightarrow> (nat \<times> nat list) option" where
  "utf8_decode_cp [] = None"
| "utf8_decode_cp (b0 # bs) =
     (if b0 < 0x80 then Some (b0, bs)
      else if 0xC2 \<le> b0 \<and> b0 \<le> 0xDF then
        (case bs of
           b1 # r \<Rightarrow>
             if continuation b1 then Some ((b0 - 0xC0) * 64 + (b1 - 0x80), r) else None
         | _ \<Rightarrow> None)
      else if 0xE0 \<le> b0 \<and> b0 \<le> 0xEF then
        (case bs of
           b1 # b2 # r \<Rightarrow>
             if (if b0 = 0xE0 then 0xA0 else 0x80) \<le> b1
                \<and> b1 \<le> (if b0 = 0xED then 0x9F else 0xBF)
                \<and> continuation b2
             then Some ((b0 - 0xE0) * 4096 + (b1 - 0x80) * 64 + (b2 - 0x80), r)
             else None
         | _ \<Rightarrow> None)
      else if 0xF0 \<le> b0 \<and> b0 \<le> 0xF4 then
        (case bs of
           b1 # b2 # b3 # r \<Rightarrow>
             if (if b0 = 0xF0 then 0x90 else 0x80) \<le> b1
                \<and> b1 \<le> (if b0 = 0xF4 then 0x8F else 0xBF)
                \<and> continuation b2 \<and> continuation b3
             then Some ((b0 - 0xF0) * 262144 + (b1 - 0x80) * 4096
                        + (b2 - 0x80) * 64 + (b3 - 0x80), r)
             else None
         | _ \<Rightarrow> None)
      else None)"

lemma utf8_decode_cp_shorter:
  "utf8_decode_cp bs = Some (c, r) \<Longrightarrow> length r < length bs"
  by (cases bs) (auto split: if_splits list.splits)

function utf8_decode :: "nat list \<Rightarrow> pystr option" where
  "utf8_decode [] = Some []"
| "utf8_decode (b # bs) =
     (case utf8_decode_cp (b # bs) of
        None \<Rightarrow> None
      | Some (c, r) \<Rightarrow> (case utf8_decode r of None \<Rightarrow> None | Some s \<Rightarrow> Some (c # s)))"
  by pat_completeness auto
termination
  by (relation "measure length")
     (auto simp del: utf8_decode_cp.simps dest: utf8_decode_cp_shorter)

definition bytes_decode :: "byte list \<Rightarrow> exn + pystr" where
  "bytes_decode bs =
     (case utf8_decode (map unat bs) of
        None \<Rightarrow> Inl UnicodeDecodeError
      | Some s \<Rightarrow> Inr s)"

subsection \<open>Exceptions: sequencing and \<open>try\<close> / \<open>except\<close>\<close>

text \<open>
  \<open>bind_exn\<close> runs the next statement unless the first raised. \<open>try_except catches body
  handler\<close> is a \<open>try\<close> block with one \<open>except\<close> clause: the handler runs for the exceptions
  the clause names, every other exception propagates.
\<close>

definition bind_exn :: "exn + 'a \<Rightarrow> ('a \<Rightarrow> exn + 'b) \<Rightarrow> exn + 'b" where
  "bind_exn m f = (case m of Inl e \<Rightarrow> Inl e | Inr v \<Rightarrow> f v)"

definition try_except :: "(exn \<Rightarrow> bool) \<Rightarrow> exn + 'a \<Rightarrow> (exn \<Rightarrow> exn + 'a) \<Rightarrow> exn + 'a" where
  "try_except catches body handler =
     (case body of
        Inl e \<Rightarrow> if catches e then handler e else Inl e
      | Inr v \<Rightarrow> Inr v)"

text \<open>\<open>except Exception\<close> names every exception of \<open>exn\<close>.\<close>

definition any_Exception :: "exn \<Rightarrow> bool" where
  "any_Exception e = True"

subsection \<open>What the application displays\<close>

text \<open>
  One constructor for each message the source displays with \<open>st.info\<close>, \<open>st.success\<close>,
  \<open>st.warning\<close> or \<open>st.error\<close>, with the values its text is formatted from.
\<close>

datatype message =
    KeyFileNotFound
  | ErrorReadingDataFile
  | FailedToSave
  | Welcome pystr
  | EnterUsername
  | AccountLockedHome
  | StoredSuccessfully
  | ProvideBoth
  | NoDataYet
  | MaxAttemptsReached
  | DecryptedData pystr
  | DecryptionFailed
  | IncorrectPasskey nat
  | AccountLocked
  | EnterPasskey
  | InvalidState

section \<open>Cryptography and hashing helpers\<close>

subsection \<open>The key file: \<open>generate_key\<close> and \<open>load_key\<close>\<close>

text \<open>
  The part of the world the key helpers touch: the contents of \<open>secret.key\<close> (\<open>None\<close> when
  \<open>os.path.exists\<close> is false), and the random source behind \<open>Fernet.generate_key()\<close>, a
  sequence of keys of which \<open>drawn\<close> have been handed out. \<open>load_key\<close> returns the key and
  the messages it displayed. Opening, reading and writing the key file succeed: the source
  handles no failure of them.
\<close>

record key_world =
  key_file :: "byte list option"
  fresh_keys :: "nat \<Rightarrow> byte list"
  drawn :: nat

definition generate_key :: "key_world \<Rightarrow> byte list \<times> key_world" where
  "generate_key w =
     (let key = fresh_keys w (drawn w)
      in (key, w\<lparr>key_file := Some key, drawn := Suc (drawn w)\<rparr>))"

definition load_key :: "key_world \<Rightarrow> (byte list \<times> message list) \<times> key_world" where
  "load_key w =
     (case key_file w of
        Some contents \<Rightarrow> ((contents, []), w)
      | None \<Rightarrow> (let (key, w') = generate_key w in ((key, [KeyFileNotFound]), w')))"

subsection \<open>\<open>hash_passkey\<close>\<close>

text \<open>
  \<open>hashlib.sha256\<close> is a parameter: a function from the bytes hashed to the 256-bit digest.
  \<open>hexdigest\<close> writes the digest as lowercase hexadecimal digits, most significant first.
\<close>

definition hex_digit :: "nat \<Rightarrow> nat" where
  "hex_digit n = (if n < 10 then 48 + n else 87 + n)"

definition hexdigest :: "256 word \<Rightarrow> pystr" where
  "hexdigest w = map (\<lambda>i. hex_digit (unat (drop_bit (4 * i) w) mod 16)) (rev [0..<64])"

definition hash_passkey :: "(byte list \<Rightarrow> 256 word) \<Rightarrow> pystr \<Rightarrow> exn + pystr" where
  "hash_passkey sha256 passkey =
     bind_exn (str_encode passkey) (\<lambda>bs. Inr (hexdigest (sha256 bs)))"

subsection \<open>\<open>encrypt_data\<close> and \<open>decrypt_data\<close>\<close>

text \<open>
  \<open>cipher_suite = Fernet(KEY)\<close> is an object of the \<open>cryptography\<close> library: the record holds
  its two methods. \<open>encrypt\<close> depends on the clock and on a random initialisation vector,
  which the argument of type \<open>'r\<close> stands for; \<open>decrypt\<close> returns the plaintext bytes or
  raises (\<open>InvalidToken\<close> for a token it does not authenticate).
\<close>

record 'r fernet =
  encrypt :: "'r \<Rightarrow> byte list \<Rightarrow> byte list"
  decrypt :: "byte list \<Rightarrow> exn + byte list"

definition encrypt_data :: "'r fernet \<Rightarrow> 'r \<Rightarrow> pystr \<Rightarrow> exn + pystr" where
  "encrypt_data cipher_suite r text =
     bind_exn (str_encode text) (\<lambda>bs. bytes_decode (encrypt cipher_suite r bs))"

definition decrypt_data :: "'r fernet \<Rightarrow> pystr \<Rightarrow> exn + pystr option" where
  "decrypt_data cipher_suite encrypted_text =
     try_except any_Exception
       (bind_exn (str_encode encrypted_text) (\<lambda>token.
        bind_exn (decrypt cipher_suite token) (\<lambda>plain.
        bind_exn (bytes_decode plain) (\<lambda>text. Inr (Some text)))))
       (\<lambda>e. Inr None)"

section \<open>Data persistence helpers\<close>

text \<open>
  What \<open>json.loads\<close> returns. A number is kept as its literal: Python makes it an \<open>int\<close> or a
  \<open>float\<close>, and nothing below looks inside.
\<close>

datatype json =
    JNull
  | JBool bool
  | JNumber pystr
  | JString pystr
  | JArray "json list"
  | JObject "(pystr \<times> json) list"

datatype file_state = Absent | Contents "byte list"

text \<open>
  \<open>f.read()\<close> on a file opened in text mode: the bytes are decoded (UTF-8, strictly) and
  every line ending becomes \<open>\n\<close>.
\<close>

fun universal_newlines :: "pystr \<Rightarrow> pystr" where
  "universal_newlines [] = []"
| "universal_newlines [c] = [if c = 13 then 10 else c]"
| "universal_newlines (c # d # r) =
     (if c = 13 \<and> d = 10 then 10 # universal_newlines r
      else (if c = 13 then 10 else c) # universal_newlines (d # r))"

definition text_read :: "byte list \<Rightarrow> exn + pystr" where
  "text_read bs = bind_exn (bytes_decode bs) (\<lambda>s. Inr (universal_newlines s))"

text \<open>
  \<open>load_data\<close>, with \<open>json.loads\<close> as the parameter \<open>loads\<close>. The result is the value
  returned and the messages displayed; \<open>Inl\<close> is an exception that leaves \<open>load_data\<close>.
\<close>

definition load_data :: "(pystr \<Rightarrow> exn + json) \<Rightarrow> file_state \<Rightarrow> exn + (json \<times> message list)" where
  "load_data loads data_file =
     (case data_file of
        Contents bs \<Rightarrow>
          try_except (\<lambda>e. e = JSONDecodeError)
            (bind_exn (text_read bs) (\<lambda>content.
             bind_exn (if content \<noteq> [] then loads content else Inr (JObject [])) (\<lambda>v.
             Inr (v, []))))
            (\<lambda>e. Inr (JObject [], [ErrorReadingDataFile]))
      | Absent \<Rightarrow> Inr (JObject [], []))"

section \<open>The application state\<close>

text \<open>
  \<open>st.session_state\<close> holds \<open>logged_in_user\<close>, \<open>login_attempts\<close> (per username a dictionary
  with the keys \<open>attempts\<close> and \<open>locked\<close>) and \<open>current_page\<close>. \<open>stored_data\<close> is the module's
  global, loaded at the start of every run of the script: a dictionary from usernames to
  dictionaries from item ids to items, kept in insertion order as Python keeps it. The
  vault follows the schema of the data file: every item has both of its keys, and a key
  occurs once in a dictionary.
  \<open>written\<close> is the vault \<open>save_data\<close> last dumped into \<open>data.json\<close> (\<open>None\<close> before the first
  write), and \<open>disk_writable\<close> says whether opening that file for writing succeeds.
\<close>

record attempt_state =
  attempts :: nat
  locked :: bool

record vault_item =
  encrypted_text :: pystr
  passkey_hash :: pystr

type_synonym collection = "(pystr \<times> vault_item) list"
type_synonym vault = "(pystr \<times> collection) list"

record app_state =
  logged_in_user :: "pystr option"
  login_attempts :: "pystr \<rightharpoonup> attempt_state"
  current_page :: string
  stored_data :: vault
  written :: "vault option"
  disk_writable :: bool

definition MAX_ATTEMPTS :: nat where
  "MAX_ATTEMPTS = 3"

text \<open>
  One run of the script handles at most one interaction of the user with a widget of the
  page on display. A run ends normally, by \<open>st.rerun()\<close> (which stops the script at once),
  or by an exception nobody caught. A page function returns the state it leaves, the
  messages it displayed (\<open>st.info\<close>, \<open>st.success\<close>, \<open>st.warning\<close>, \<open>st.error\<close>) and how it ended.
\<close>

datatype action =
    NoAction
  | SubmitLogin pystr pystr
  | PressStore
  | PressRetrieve
  | PressLogout
  | SubmitStore pystr pystr
  | SubmitRetrieve pystr
  | PressBack

datatype control = Completed | Rerun | Raised exn

type_synonym outcome = "app_state \<times> message list \<times> control"

definition initial_session :: "vault \<Rightarrow> bool \<Rightarrow> app_state" where
  "initial_session data writable =
     \<lparr>logged_in_user = None, login_attempts = Map.empty, current_page = ''Login'',
      stored_data = data, written = None, disk_writable = writable\<rparr>"

text \<open>\<open>if not user\<close>: \<open>None\<close> and the empty string are false.\<close>

definition truthy_user :: "app_state \<Rightarrow> pystr option" where
  "truthy_user s =
     (case logged_in_user s of
        None \<Rightarrow> None
      | Some user \<Rightarrow> if user = [] then None else Some user)"

text \<open>\<open>login_attempts.get(user, {'attempts': 0, 'locked': False})\<close>, as a value.\<close>

definition attempt_state_of :: "app_state \<Rightarrow> pystr \<Rightarrow> attempt_state" where
  "attempt_state_of s user =
     (case login_attempts s user of
        None \<Rightarrow> \<lparr>attempts = 0, locked = False\<rparr>
      | Some st \<Rightarrow> st)"

subsection \<open>\<open>save_data\<close>\<close>

definition save_data :: "vault \<Rightarrow> app_state \<Rightarrow> app_state \<times> message list" where
  "save_data data s =
     (if disk_writable s then (s\<lparr>written := Some data\<rparr>, [])
      else (s, [FailedToSave]))"

subsection \<open>\<open>navigate_to\<close>\<close>

text \<open>The state \<open>navigate_to\<close> leaves; its last statement is \<open>st.rerun()\<close>.\<close>

definition navigate_to :: "string \<Rightarrow> app_state \<Rightarrow> app_state" where
  "navigate_to page_name s =
     (let s1 =
        (case truthy_user s of
           None \<Rightarrow> s
         | Some user \<Rightarrow>
             (case login_attempts s user of
                None \<Rightarrow> s
              | Some st \<Rightarrow>
                  if page_name \<noteq> ''Retrieve''
                  then s\<lparr>login_attempts := (login_attempts s)(user \<mapsto> st\<lparr>attempts := 0\<rparr>)\<rparr>
                  else s))
      in s1\<lparr>current_page := page_name\<rparr>)"

subsection \<open>\<open>render_login\<close>\<close>

definition render_login :: "action \<Rightarrow> app_state \<Rightarrow> outcome" where
  "render_login act s =
     (case act of
        SubmitLogin username_login password_login \<Rightarrow>
          if username_login \<noteq> [] then
            (let s1 = s\<lparr>logged_in_user := Some username_login\<rparr>;
                 s2 =
                   (case login_attempts s1 username_login of
                      None \<Rightarrow>
                        s1\<lparr>login_attempts :=
                             (login_attempts s1)(username_login \<mapsto> \<lparr>attempts = 0, locked = False\<rparr>)\<rparr>
                    | Some st \<Rightarrow>
                        s1\<lparr>login_attempts :=
                             (login_attempts s1)(username_login \<mapsto> st\<lparr>locked := False, attempts := 0\<rparr>)\<rparr>)
             in (navigate_to ''Home'' s2, [Welcome username_login], Rerun))
          else (s, [EnterUsername], Completed)
      | _ \<Rightarrow> (s, [], Completed))"

subsection \<open>\<open>render_home\<close>\<close>

definition render_home :: "action \<Rightarrow> app_state \<Rightarrow> outcome" where
  "render_home act s =
     (case truthy_user s of
        None \<Rightarrow> (navigate_to ''Login'' s, [], Rerun)
      | Some user \<Rightarrow>
          if act = PressStore then (navigate_to ''Store'' s, [], Rerun)
          else
            (let is_locked = (case login_attempts s user of None \<Rightarrow> False | Some st \<Rightarrow> locked st);
                 msgs = (if is_locked then [AccountLockedHome] else [])
             in if \<not> is_locked \<and> act = PressRetrieve then (navigate_to ''Retrieve'' s, msgs, Rerun)
                else if act = PressLogout then
                  (let s1 =
                     (case login_attempts s user of
                        None \<Rightarrow> s
                      | Some st \<Rightarrow>
                          s\<lparr>login_attempts :=
                              (login_attempts s)(user \<mapsto> \<lparr>attempts = 0, locked = False\<rparr>)\<rparr>);
                       s2 = s1\<lparr>logged_in_user := None\<rparr>
                   in (navigate_to ''Login'' s2, msgs, Rerun))
                else (s, msgs, Completed)))"

subsection \<open>\<open>render_store\<close>\<close>

text \<open>\<open>str(n)\<close> for a natural number, and the id \<open>f"data_{n}"\<close>.\<close>

fun str_of_nat :: "nat \<Rightarrow> pystr" where
  "str_of_nat n = (if n < 10 then [48 + n] else str_of_nat (n div 10) @ [48 + n mod 10])"

definition data_id_of :: "nat \<Rightarrow> pystr" where
  "data_id_of n = map of_char ''data_'' @ str_of_nat n"

definition render_store ::
  "(byte list \<Rightarrow> 256 word) \<Rightarrow> 'r fernet \<Rightarrow> 'r \<Rightarrow> action \<Rightarrow> app_state \<Rightarrow> outcome" where
  "render_store sha256 cipher_suite r act s =
     (case truthy_user s of
        None \<Rightarrow> (navigate_to ''Login'' s, [], Rerun)
      | Some user \<Rightarrow>
          (case act of
             SubmitStore data_to_store passkey_store \<Rightarrow>
               if data_to_store \<noteq> [] \<and> passkey_store \<noteq> [] then
                 (case hash_passkey sha256 passkey_store of
                    Inl e \<Rightarrow> (s, [], Raised e)
                  | Inr hashed_pk \<Rightarrow>
                      (case encrypt_data cipher_suite r data_to_store of
                         Inl e \<Rightarrow> (s, [], Raised e)
                       | Inr encrypted_dt \<Rightarrow>
                           (let data1 =
                              (if map_of (stored_data s) user = None
                               then AList.update user [] (stored_data s)
                               else stored_data s);
                                items = (case map_of data1 user of None \<Rightarrow> [] | Some c \<Rightarrow> c);
                                data_id = data_id_of (length items + 1);
                                item = \<lparr>encrypted_text = encrypted_dt, passkey_hash = hashed_pk\<rparr>;
                                data2 = AList.update user (AList.update data_id item items) data1;
                                (s', msgs) = save_data data2 (s\<lparr>stored_data := data2\<rparr>)
                            in (s', msgs @ [StoredSuccessfully], Completed))))
               else (s, [ProvideBoth], Completed)
           | PressBack \<Rightarrow> (navigate_to ''Home'' s, [], Rerun)
           | _ \<Rightarrow> (s, [], Completed)))"

subsection \<open>\<open>render_retrieve\<close>\<close>

text \<open>
  The loop over the user's items (lines 258 to 270 of the source). It returns the messages
  displayed, the local dictionary \<open>user_attempts_state\<close> as the loop leaves it, and
  \<open>found_data\<close>.
\<close>

fun retrieve_loop ::
  "'r fernet \<Rightarrow> pystr \<Rightarrow> collection \<Rightarrow> attempt_state
     \<Rightarrow> exn + (message list \<times> attempt_state \<times> bool)" where
  "retrieve_loop cipher_suite hashed_input_pk [] st = Inr ([], st, False)"
| "retrieve_loop cipher_suite hashed_input_pk ((data_id, data_item) # rest) st =
     (if passkey_hash data_item = hashed_input_pk then
        (case decrypt_data cipher_suite (encrypted_text data_item) of
           Inl e \<Rightarrow> Inl e
         | Inr (Some decrypted_text) \<Rightarrow>
             Inr ([DecryptedData decrypted_text], st\<lparr>attempts := 0\<rparr>, True)
         | Inr None \<Rightarrow> Inr ([DecryptionFailed], st, True))
      else retrieve_loop cipher_suite hashed_input_pk rest st)"

text \<open>
  The body of \<open>if passkey_retrieve:\<close>. \<open>user_attempts_state\<close> is the dictionary that
  \<open>login_attempts.get(user, {...})\<close> returned: the very object stored under \<open>user\<close> when
  there is one (\<open>aliased\<close>), so that an assignment to its keys is seen in the session state
  at once, and a fresh dictionary otherwise, which reaches the session state only by the
  assignment of line 285. When the account locks, \<open>st.rerun()\<close> ends the run before that
  line. On the other paths line 285 stores the local dictionary, which covers the
  assignments made through the alias. No other name refers to a dictionary of
  \<open>login_attempts\<close>: every entry is a dictionary of its own.
\<close>

definition retrieve_attempt ::
  "(byte list \<Rightarrow> 256 word) \<Rightarrow> 'r fernet \<Rightarrow> pystr \<Rightarrow> collection \<Rightarrow> pystr \<Rightarrow> app_state \<Rightarrow> outcome" where
  "retrieve_attempt sha256 cipher_suite user items passkey_retrieve s =
     (let aliased = (login_attempts s user \<noteq> None);
          user_attempts_state = attempt_state_of s user
      in case hash_passkey sha256 passkey_retrieve of
           Inl e \<Rightarrow> (s, [], Raised e)
         | Inr hashed_input_pk \<Rightarrow>
             (case retrieve_loop cipher_suite hashed_input_pk items user_attempts_state of
                Inl e \<Rightarrow> (s, [], Raised e)
              | Inr (msgs, st1, found_data) \<Rightarrow>
                  if \<not> found_data then
                    (let st2 = st1\<lparr>attempts := attempts st1 + 1\<rparr>;
                         msgs2 = msgs @ [IncorrectPasskey (attempts st2)]
                     in if attempts st2 \<ge> MAX_ATTEMPTS then
                          (let st3 = st2\<lparr>locked := True\<rparr>
                           in (if aliased
                               then s\<lparr>login_attempts := (login_attempts s)(user \<mapsto> st3)\<rparr>
                               else s,
                               msgs2 @ [AccountLocked], Rerun))
                        else (s\<lparr>login_attempts := (login_attempts s)(user \<mapsto> st2)\<rparr>,
                              msgs2, Completed))
                  else (s\<lparr>login_attempts := (login_attempts s)(user \<mapsto> st1)\<rparr>,
                        msgs, Completed)))"

definition render_retrieve ::
  "(byte list \<Rightarrow> 256 word) \<Rightarrow> 'r fernet \<Rightarrow> action \<Rightarrow> app_state \<Rightarrow> outcome" where
  "render_retrieve sha256 cipher_suite act s =
     (case truthy_user s of
        None \<Rightarrow> (navigate_to ''Login'' s, [], Rerun)
      | Some user \<Rightarrow>
          (let items = (case map_of (stored_data s) user of None \<Rightarrow> [] | Some c \<Rightarrow> c);
               user_attempts_state = attempt_state_of s user;
               (s1, msgs, ctl) =
                 (if items = [] then (s, [NoDataYet], Completed)
                  else if locked user_attempts_state then (s, [MaxAttemptsReached], Completed)
                  else
                    (case act of
                       SubmitRetrieve passkey_retrieve \<Rightarrow>
                         if passkey_retrieve \<noteq> []
                         then retrieve_attempt sha256 cipher_suite user items passkey_retrieve s
                         else (s, [EnterPasskey], Completed)
                     | _ \<Rightarrow> (s, [], Completed)))
           in if ctl = Completed \<and> act = PressBack
              then (navigate_to ''Home'' s1, msgs, Rerun)
              else (s1, msgs, ctl)))"

subsection \<open>The script's dispatch on the current page\<close>

definition script ::
  "(byte list \<Rightarrow> 256 word) \<Rightarrow> 'r fernet \<Rightarrow> 'r \<Rightarrow> action \<Rightarrow> app_state \<Rightarrow> outcome" where
  "script sha256 cipher_suite r act s =
     (if current_page s = ''Login'' \<or> truthy_user s = None then render_login act s
      else if current_page s = ''Home'' then render_home act s
      else if current_page s = ''Store'' then render_store sha256 cipher_suite r act s
      else if current_page s = ''Retrieve'' then render_retrieve sha256 cipher_suite act s
      else (navigate_to ''Login'' s, [InvalidState], Rerun))"

subsection \<open>The invariant of the attempt states\<close>

text \<open>
  What holds of \<open>login_attempts\<close> in every state the application reaches: an unlocked entry
  counts fewer than \<open>MAX_ATTEMPTS\<close> failures, a locked entry counts \<open>MAX_ATTEMPTS\<close> (or none,
  after a navigation reset the count), and the user logged in has an entry.
\<close>

definition guard_invariant :: "app_state \<Rightarrow> bool" where
  "guard_invariant s =
     ((\<forall>user st. login_attempts s user = Some st \<longrightarrow>
         (if locked st then attempts st = 0 \<or> attempts st = MAX_ATTEMPTS
          else attempts st < MAX_ATTEMPTS))
      \<and> (\<forall>user. truthy_user s = Some user \<longrightarrow> login_attempts s user \<noteq> None))"

text \<open>
  \<open>has_entry\<close> is the second part of the invariant. \<open>entry_step\<close> lists the ways one run of
  the script changes the entry of a user: not at all, to the initial entry (login, logout),
  by a reset of the count alone (navigation, a successful retrieval), or by one more failed
  attempt of an unlocked user, which locks at \<open>MAX_ATTEMPTS\<close>.
\<close>

definition has_entry :: "app_state \<Rightarrow> bool" where
  "has_entry s = (\<forall>user. truthy_user s = Some user \<longrightarrow> login_attempts s user \<noteq> None)"

definition entry_step :: "attempt_state option \<Rightarrow> attempt_state option \<Rightarrow> bool" where
  "entry_step before after =
     (after = before
      \<or> after = Some \<lparr>attempts = 0, locked = False\<rparr>
      \<or> (\<exists>st. before = Some st \<and> after = Some (st\<lparr>attempts := 0\<rparr>))
      \<or> (\<exists>st. before = Some st \<and> \<not> locked st
            \<and> after = Some \<lparr>attempts = attempts st + 1, locked = (MAX_ATTEMPTS \<le> attempts st + 1)\<rparr>))"

section \<open>A concrete cipher and digest\<close>

text \<open>
  The library functions are parameters of the model. To evaluate the model on concrete
  inputs the parameters are instantiated with small stand-ins that keep the shape of the
  library's: a digest into 256 bits, and a cipher whose tokens are ASCII text that carry the
  key they were made with and a nonce, and that rejects every other token.
\<close>

definition demo_sha256 :: "byte list \<Rightarrow> 256 word" where
  "demo_sha256 bs = word_of_nat (fold (\<lambda>b n. 256 * n + unat b) bs 1)"

definition demo_armor :: "byte list \<Rightarrow> byte list" where
  "demo_armor bs = concat (map (\<lambda>b. [of_nat (65 + unat b div 16), of_nat (65 + unat b mod 16)]) bs)"

fun demo_unarmor :: "byte list \<Rightarrow> exn + byte list" where
  "demo_unarmor [] = Inr []"
| "demo_unarmor [x] = Inl InvalidToken"
| "demo_unarmor (x # y # r) =
     (if 65 \<le> unat x \<and> unat x < 81 \<and> 65 \<le> unat y \<and> unat y < 81
      then bind_exn (demo_unarmor r) (\<lambda>m. Inr (of_nat ((unat x - 65) * 16 + (unat y - 65)) # m))
      else Inl InvalidToken)"

definition demo_fernet :: "byte \<Rightarrow> byte fernet" where
  "demo_fernet key =
     \<lparr>encrypt = (\<lambda>nonce plain. demo_armor (key # nonce # plain)),
      decrypt = (\<lambda>token.
        bind_exn (demo_unarmor token) (\<lambda>bs.
          case bs of
            k # nonce # plain \<Rightarrow> if k = key then Inr plain else Inl InvalidToken
          | _ \<Rightarrow> Inl InvalidToken))\<rparr>"

text \<open>
  A session on the retrieval page for the witnesses: user \<open>alice\<close>, logged in, with four
  items. The first holds \<open>hi\<close> under the passkey \<open>k1\<close>, the second \<open>yo\<close> and the third \<open>i\<close>,
  both under \<open>k2\<close>, and the fourth a ciphertext that is no token, under \<open>k3\<close>; the tokens
  were made with key 7.
\<close>

definition alice :: pystr where
  "alice = map of_char ''alice''"

definition demo_items :: collection where
  "demo_items =
     [(data_id_of 1, \<lparr>encrypted_text = [65, 72, 65, 74, 71, 73, 71, 74],
                      passkey_hash = hexdigest (demo_sha256 [107, 49])\<rparr>),
      (data_id_of 2, \<lparr>encrypted_text = [65, 72, 65, 74, 72, 74, 71, 80],
                      passkey_hash = hexdigest (demo_sha256 [107, 50])\<rparr>),
      (data_id_of 3, \<lparr>encrypted_text = [65, 72, 65, 74, 71, 74],
                      passkey_hash = hexdigest (demo_sha256 [107, 50])\<rparr>),
      (data_id_of 4, \<lparr>encrypted_text = [33],
                      passkey_hash = hexdigest (demo_sha256 [107, 51])\<rparr>)]"

definition demo_state :: app_state where
  "demo_state =
     \<lparr>logged_in_user = Some alice,
      login_attempts = [alice \<mapsto> \<lparr>attempts = 0, locked = False\<rparr>],
      current_page = ''Retrieve'',
      stored_data = [(alice, demo_items)],
      written = None,
      disk_writable = True\<rparr>"

section \<open>Properties of the string codec\<close>

lemma utf8_encode_cp_bytes:
  "utf8_encode_cp c = Some bs \<Longrightarrow> b \<in> set bs \<Longrightarrow> b < 256"
  by (auto simp: utf8_encode_cp_def split: if_splits)

lemma utf8_encode_cp_nonempty:
  "utf8_encode_cp c = Some bs \<Longrightarrow> bs \<noteq> []"
  by (auto simp: utf8_encode_cp_def split: if_splits)

lemma decode_two_bytes:
  "2 \<le> a \<Longrightarrow> a < 32 \<Longrightarrow> b < 64 \<Longrightarrow>
   utf8_decode_cp ((192 + a) # (128 + b) # r) = Some (a * 64 + b, r)"
  by (simp add: continuation_def)

lemma decode_three_bytes:
  "a < 16 \<Longrightarrow> b < 64 \<Longrightarrow> d < 64 \<Longrightarrow> (a = 0 \<longrightarrow> 32 \<le> b) \<Longrightarrow> (a = 13 \<longrightarrow> b < 32) \<Longrightarrow>
   utf8_decode_cp ((224 + a) # (128 + b) # (128 + d) # r) = Some (a * 4096 + b * 64 + d, r)"
  by (auto simp: continuation_def)

lemma decode_four_bytes:
  "a < 5 \<Longrightarrow> b < 64 \<Longrightarrow> d < 64 \<Longrightarrow> e < 64 \<Longrightarrow> (a = 0 \<longrightarrow> 16 \<le> b) \<Longrightarrow> (a = 4 \<longrightarrow> b < 16) \<Longrightarrow>
   utf8_decode_cp ((240 + a) # (128 + b) # (128 + d) # (128 + e) # r)
     = Some (a * 262144 + b * 4096 + d * 64 + e, r)"
  by (auto simp: continuation_def)

lemma utf8_decode_encode_cp:
  assumes "utf8_encode_cp c = Some bs"
  shows "utf8_decode_cp (bs @ r) = Some (c, r)"
proof -
  define e where "e = c mod 64"
  define q1 where "q1 = c div 64"
  define d where "d = q1 mod 64"
  define q2 where "q2 = q1 div 64"
  define b where "b = q2 mod 64"
  define a where "a = q2 div 64"
  have lt: "e < 64" "d < 64" "b < 64"
    by (simp_all add: e_def d_def b_def)
  have c1: "c = q1 * 64 + e" by (simp add: q1_def e_def)
  have c2: "q1 = q2 * 64 + d" by (simp add: q2_def d_def)
  have c3: "q2 = a * 64 + b" by (simp add: a_def b_def)
  have d2: "c div 4096 = q2"
    using div_mult2_eq [of c 64 64] by (simp add: q2_def q1_def)
  have d3: "c div 262144 = a"
    using div_mult2_eq [of c 4096 64] d2 by (simp add: a_def)
  consider (one) "c < 0x80"
    | (two) "0x80 \<le> c" "c < 0x800"
    | (three) "0x800 \<le> c" "c < 0x10000" "\<not> (0xD800 \<le> c \<and> c \<le> 0xDFFF)"
    | (four) "0x10000 \<le> c" "c < 0x110000"
    using assms unfolding utf8_encode_cp_def by (auto split: if_splits)
  then show ?thesis
  proof cases
    case one
    then show ?thesis using assms by (auto simp: utf8_encode_cp_def)
  next
    case two
    have bs: "bs = [192 + q1, 128 + e]"
      using assms two unfolding utf8_encode_cp_def q1_def e_def by simp
    have "2 \<le> q1" "q1 < 32"
      using two c1 lt by linarith+
    then show ?thesis
      using decode_two_bytes [of q1 e r] bs lt c1 by simp
  next
    case three
    have bs: "bs = [224 + q2, 128 + d, 128 + e]"
      using assms three unfolding utf8_encode_cp_def d2 [symmetric] d_def q1_def e_def
      by (simp split: if_splits)
    have c: "c = q2 * 4096 + d * 64 + e"
      using c1 c2 by simp
    have "q2 < 16" "q2 = 0 \<longrightarrow> 32 \<le> d" "q2 = 13 \<longrightarrow> d < 32"
      using three c lt by linarith+
    then show ?thesis
      using decode_three_bytes [of q2 d e r] bs lt c by simp
  next
    case four
    have bs: "bs = [240 + a, 128 + b, 128 + d, 128 + e]"
      using assms four
      unfolding utf8_encode_cp_def d3 [symmetric] b_def d2 [symmetric] d_def q1_def e_def
      by simp
    have c: "c = a * 262144 + b * 4096 + d * 64 + e"
      using c1 c2 c3 by simp
    have "a < 5" "a = 0 \<longrightarrow> 16 \<le> b" "a = 4 \<longrightarrow> b < 16"
      using four c lt by linarith+
    then show ?thesis
      using decode_four_bytes [of a b d e r] bs lt c by simp
  qed
qed

lemma utf8_encode_bytes:
  "utf8_encode s = Some bs \<Longrightarrow> b \<in> set bs \<Longrightarrow> b < 256"
  by (induction s arbitrary: bs) (auto split: option.splits dest: utf8_encode_cp_bytes)

lemma utf8_decode_append:
  assumes "utf8_encode_cp c = Some bs" and "utf8_decode r = Some s"
  shows "utf8_decode (bs @ r) = Some (c # s)"
proof -
  from assms(1) obtain b bs' where bs: "bs = b # bs'"
    by (cases bs) (auto dest: utf8_encode_cp_nonempty)
  have "utf8_decode_cp ((b # bs') @ r) = Some (c, r)"
    using utf8_decode_encode_cp [OF assms(1)] bs by simp
  then show ?thesis
    using assms(2) bs by (simp del: utf8_decode_cp.simps)
qed

lemma utf8_decode_encode:
  "utf8_encode s = Some bs \<Longrightarrow> utf8_decode bs = Some s"
  by (induction s arbitrary: bs) (auto split: option.splits intro: utf8_decode_append)

lemma utf8_encode_well_formed:
  "well_formed s \<Longrightarrow> \<exists>bs. utf8_encode s = Some bs"
  by (induction s) (auto simp: well_formed_def scalar_value_def utf8_encode_cp_def)

lemma map_unat_of_nat:
  "\<forall>b\<in>set bs. b < 256 \<Longrightarrow> map unat (map of_nat bs :: byte list) = bs"
  by (induction bs) (auto simp: unat_of_nat)

lemma bytes_decode_str_encode:
  assumes "str_encode s = Inr bs"
  shows "bytes_decode bs = Inr s"
proof -
  from assms obtain ns where ns: "utf8_encode s = Some ns" and bs: "bs = map of_nat ns"
    by (auto simp: str_encode_def split: option.splits)
  have "map unat bs = ns"
    unfolding bs using utf8_encode_bytes [OF ns] by (intro map_unat_of_nat) blast
  then show ?thesis
    using utf8_decode_encode [OF ns] by (simp add: bytes_decode_def)
qed

section \<open>Properties of the concrete cipher\<close>

lemma unat_of_nat_byte: "n < 256 \<Longrightarrow> unat (of_nat n :: byte) = n"
  by (simp add: unat_of_nat)

lemma demo_unarmor_armor: "demo_unarmor (demo_armor bs) = Inr bs"
proof (induction bs)
  case Nil
  then show ?case by (simp add: demo_armor_def)
next
  case (Cons b bs)
  define hi where "hi = unat b div 16"
  define lo where "lo = unat b mod 16"
  have lt: "unat b < 256" using unsigned_less [of b, where ?'a = nat] by simp
  then have d: "hi < 16" by (simp add: hi_def)
  have m: "lo < 16" by (simp add: lo_def)
  have x: "unat (of_nat (65 + hi) :: byte) = 65 + hi"
    using d by (intro unat_of_nat_byte) simp
  have y: "unat (of_nat (65 + lo) :: byte) = 65 + lo"
    using m by (intro unat_of_nat_byte) simp
  have b: "of_nat (hi * 16 + lo) = b"
    by (simp add: hi_def lo_def)
  have "demo_armor (b # bs) = of_nat (65 + hi) # of_nat (65 + lo) # demo_armor bs"
    by (simp add: demo_armor_def hi_def lo_def)
  then show ?case
    using Cons x y d m b by (simp add: bind_exn_def del: of_nat_add of_nat_mult)
qed

lemma demo_armor_ascii: "x \<in> set (demo_armor bs) \<Longrightarrow> x < 128"
proof (induction bs)
  case Nil
  then show ?case by (simp add: demo_armor_def)
next
  case (Cons b bs)
  define hi where "hi = unat b div 16"
  define lo where "lo = unat b mod 16"
  have lt: "unat b < 256" using unsigned_less [of b, where ?'a = nat] by simp
  then have d: "hi < 16" by (simp add: hi_def)
  have m: "lo < 16" by (simp add: lo_def)
  have x: "unat (of_nat (65 + hi) :: byte) = 65 + hi"
    using d by (intro unat_of_nat_byte) simp
  have y: "unat (of_nat (65 + lo) :: byte) = 65 + lo"
    using m by (intro unat_of_nat_byte) simp
  have x': "(of_nat (65 + hi) :: byte) < 128"
    using x d by (simp add: word_less_nat_alt del: of_nat_add)
  have y': "(of_nat (65 + lo) :: byte) < 128"
    using y m by (simp add: word_less_nat_alt del: of_nat_add)
  have "demo_armor (b # bs) = of_nat (65 + hi) # of_nat (65 + lo) # demo_armor bs"
    by (simp add: demo_armor_def hi_def lo_def)
  then show ?case
    using Cons x' y' by (auto simp del: of_nat_add)
qed

lemma demo_fernet_round_trip:
  "decrypt (demo_fernet key) (encrypt (demo_fernet key) nonce plain) = Inr plain"
  by (simp add: demo_fernet_def demo_unarmor_armor bind_exn_def)

lemma demo_fernet_ascii:
  "x \<in> set (encrypt (demo_fernet key) nonce plain) \<Longrightarrow> x < 128"
  by (simp add: demo_fernet_def demo_armor_ascii)

section \<open>The passkey hash\<close>

lemma length_hexdigest: "length (hexdigest w) = 64"
  by (simp add: hexdigest_def)

lemma str_encode_well_formed: "well_formed s \<Longrightarrow> \<exists>bs. str_encode s = Inr bs"
  using utf8_encode_well_formed [of s] by (auto simp: str_encode_def)

text \<open>
  Claim C9. For well-formed passkeys (strings of Unicode scalar values) \<open>hash_passkey\<close>
  raises nothing, its result always has 64 characters, and equal passkeys have equal
  digests.
\<close>

theorem hash_passkey_deterministic_fixed_length:
  assumes "well_formed p" and "well_formed q"
  shows "\<exists>d e. hash_passkey sha256 p = Inr d \<and> hash_passkey sha256 q = Inr e
           \<and> length d = 64 \<and> length e = 64 \<and> (p = q \<longrightarrow> d = e)"
proof -
  obtain bp where bp: "str_encode p = Inr bp"
    using str_encode_well_formed [OF assms(1)] by blast
  obtain bq where bq: "str_encode q = Inr bq"
    using str_encode_well_formed [OF assms(2)] by blast
  have "hash_passkey sha256 p = Inr (hexdigest (sha256 bp))"
    by (simp add: hash_passkey_def bind_exn_def bp)
  moreover have "hash_passkey sha256 q = Inr (hexdigest (sha256 bq))"
    by (simp add: hash_passkey_def bind_exn_def bq)
  moreover have "p = q \<longrightarrow> hexdigest (sha256 bp) = hexdigest (sha256 bq)"
    using bp bq by auto
  ultimately show ?thesis
    by (simp add: length_hexdigest)
qed

theorem hash_passkey_deterministic_fixed_length_witness:
  "well_formed [97, 98, 99] \<and> well_formed [120] \<and>
   (\<exists>d e. hash_passkey demo_sha256 [97, 98, 99] = Inr d \<and> hash_passkey demo_sha256 [120] = Inr e
      \<and> length d = 64 \<and> length e = 64)"
proof -
  have a: "well_formed [97, 98, 99]" and b: "well_formed [120]"
    by (simp_all add: well_formed_def scalar_value_def)
  show ?thesis
    using hash_passkey_deterministic_fixed_length [OF a b, of demo_sha256] a b by blast
qed

section \<open>Encryption and decryption\<close>

lemma utf8_decode_ascii: "\<forall>n\<in>set ns. n < 128 \<Longrightarrow> utf8_decode ns = Some ns"
  by (induction ns) auto

lemma utf8_encode_ascii: "\<forall>c\<in>set s. c < 128 \<Longrightarrow> utf8_encode s = Some s"
  by (induction s) (auto simp: utf8_encode_cp_def)

lemma unat_ascii: "(b :: byte) < 128 \<Longrightarrow> unat b < 128"
  by (simp add: word_less_nat_alt)

lemma bytes_decode_ascii:
  assumes "\<forall>b\<in>set bs. b < 128"
  shows "bytes_decode bs = Inr (map unat bs)"
proof -
  have "\<forall>n\<in>set (map unat bs). n < 128"
    using assms by (auto dest: unat_ascii)
  then show ?thesis
    by (simp add: bytes_decode_def utf8_decode_ascii)
qed

lemma str_encode_ascii:
  assumes "\<forall>b\<in>set bs. b < 128"
  shows "str_encode (map unat bs) = Inr bs"
proof -
  have "\<forall>n\<in>set (map unat bs). n < 128"
    using assms by (auto dest: unat_ascii)
  then have "utf8_encode (map unat bs) = Some (map unat bs)"
    by (rule utf8_encode_ascii)
  moreover have "map of_nat (map unat bs) = bs"
    by (induction bs) simp_all
  ultimately show ?thesis
    by (simp add: str_encode_def)
qed

text \<open>
  Claim C1, amended. The contract of the library is a hypothesis: the cipher suite decrypts
  what it encrypted, and its tokens are ASCII (URL-safe base64). Then for every plaintext
  of Unicode scalar values, whatever the clock and the initialisation vector \<open>r\<close> were,
  \<open>encrypt_data\<close> returns a ciphertext and \<open>decrypt_data\<close> returns the plaintext from it.
\<close>

theorem encrypt_decrypt_round_trip:
  assumes contract: "\<forall>r m. decrypt cs (encrypt cs r m) = Inr m"
      and ascii: "\<forall>r m. \<forall>b\<in>set (encrypt cs r m). b < 128"
      and wf: "well_formed P"
  shows "\<exists>ct. encrypt_data cs r P = Inr ct \<and> decrypt_data cs ct = Inr (Some P)"
proof -
  obtain bs where bs: "str_encode P = Inr bs"
    using str_encode_well_formed [OF wf] by blast
  define token where "token = encrypt cs r bs"
  define ct where "ct = map unat token"
  have tok: "\<forall>b\<in>set token. b < 128"
    using ascii by (simp add: token_def)
  have enc: "encrypt_data cs r P = Inr ct"
    by (simp add: encrypt_data_def bind_exn_def bs bytes_decode_ascii [OF tok]
        token_def [symmetric] ct_def)
  have reenc: "str_encode ct = Inr token"
    unfolding ct_def by (rule str_encode_ascii [OF tok])
  have plain: "decrypt cs token = Inr bs"
    using contract by (simp add: token_def)
  have txt_back: "bytes_decode bs = Inr P"
    by (rule bytes_decode_str_encode [OF bs])
  have "decrypt_data cs ct = Inr (Some P)"
    by (simp add: decrypt_data_def try_except_def bind_exn_def reenc plain txt_back)
  with enc show ?thesis by blast
qed

theorem encrypt_decrypt_round_trip_witness:
  "well_formed [104, 233, 8364, 128512] \<and>
   (\<exists>ct. encrypt_data (demo_fernet 7) 9 [104, 233, 8364, 128512] = Inr ct
      \<and> decrypt_data (demo_fernet 7) ct = Inr (Some [104, 233, 8364, 128512]))"
proof -
  have wf: "well_formed [104, 233, 8364, 128512]"
    by (simp add: well_formed_def scalar_value_def)
  have c: "\<forall>r m. decrypt (demo_fernet 7) (encrypt (demo_fernet 7) r m) = Inr m"
    by (simp add: demo_fernet_round_trip)
  have a: "\<forall>r m. \<forall>b\<in>set (encrypt (demo_fernet 7) r m). b < 128"
    by (simp add: demo_fernet_ascii)
  show ?thesis
    using encrypt_decrypt_round_trip [OF c a wf, of 9] wf by blast
qed

text \<open>
  Claim C1 as stated, for every string: a Python string may hold a lone surrogate, which
  \<open>str.encode()\<close> refuses, so that \<open>encrypt_data\<close> raises and there is nothing to decrypt.
\<close>

theorem round_trip_fails_on_lone_surrogate:
  "bind_exn (encrypt_data (demo_fernet 7) 9 [0xD800]) (decrypt_data (demo_fernet 7))
     = Inl UnicodeEncodeError"
  by (simp add: encrypt_data_def bind_exn_def str_encode_def utf8_encode_cp_def)

text \<open>
  Claim C3. Whatever the cipher suite does and whatever string it is given,
  \<open>decrypt_data\<close> raises nothing. It returns a string exactly when the input encodes to a
  token that the cipher suite decrypts to bytes that decode, and the string is that
  decoding; in every other case (the token is rejected, as for another key or a changed
  token, or the input or the plaintext has no encoding) it returns \<open>None\<close>.
\<close>

theorem decrypt_data_never_raises:
  "(\<exists>res. decrypt_data cs ct = Inr res) \<and>
   (\<forall>p. decrypt_data cs ct = Inr (Some p) \<longleftrightarrow>
      (\<exists>token plain. str_encode ct = Inr token \<and> decrypt cs token = Inr plain
         \<and> bytes_decode plain = Inr p)) \<and>
   (decrypt_data cs ct = Inr None \<longleftrightarrow>
      (\<nexists>token plain p. str_encode ct = Inr token \<and> decrypt cs token = Inr plain
         \<and> bytes_decode plain = Inr p))"
  by (auto simp: decrypt_data_def try_except_def bind_exn_def any_Exception_def
      split: sum.splits)

theorem decrypt_data_never_raises_witness:
  "decrypt_data (demo_fernet 7) [65, 72, 65, 74, 71, 73, 71, 74] = Inr (Some [104, 105]) \<and>
   decrypt_data (demo_fernet 8) [65, 72, 65, 74, 71, 73, 71, 74] = Inr None \<and>
   decrypt_data (demo_fernet 7) [65, 72, 65, 74, 71, 73, 71] = Inr None \<and>
   decrypt_data (demo_fernet 7) [0xD800] = Inr None"
proof -
  have tok: "str_encode [65, 72, 65, 74, 71, 73, 71, 74] = Inr [65, 72, 65, 74, 71, 73, 71, 74]"
    by (simp add: str_encode_def utf8_encode_cp_def)
  have short: "str_encode [65, 72, 65, 74, 71, 73, 71] = Inr [65, 72, 65, 74, 71, 73, 71]"
    by (simp add: str_encode_def utf8_encode_cp_def)
  have sur: "str_encode [0xD800] = Inl UnicodeEncodeError"
    by (simp add: str_encode_def utf8_encode_cp_def)
  have d7: "decrypt (demo_fernet 7) [65, 72, 65, 74, 71, 73, 71, 74] = Inr [104, 105]"
    by (simp add: demo_fernet_def bind_exn_def)
  have d8: "decrypt (demo_fernet 8) [65, 72, 65, 74, 71, 73, 71, 74] = Inl InvalidToken"
    by (simp add: demo_fernet_def bind_exn_def)
  have d7s: "decrypt (demo_fernet 7) [65, 72, 65, 74, 71, 73, 71] = Inl InvalidToken"
    by (simp add: demo_fernet_def bind_exn_def)
  have hi: "bytes_decode [104, 105] = Inr [104, 105]"
    by (simp add: bytes_decode_def utf8_decode_cp.simps)
  show ?thesis
    using decrypt_data_never_raises [of "demo_fernet 7" "[65, 72, 65, 74, 71, 73, 71, 74]"]
      decrypt_data_never_raises [of "demo_fernet 8" "[65, 72, 65, 74, 71, 73, 71, 74]"]
      decrypt_data_never_raises [of "demo_fernet 7" "[65, 72, 65, 74, 71, 73, 71]"]
      decrypt_data_never_raises [of "demo_fernet 7" "[0xD800]"]
    by (simp add: tok short sur d7 d8 d7s hi)
qed

section \<open>The key file\<close>

text \<open>
  Claim C7. Two calls of \<open>load_key\<close> in a row return the same key, and the second call
  changes nothing and generates nothing: after the first call the key file holds the key
  returned. When no key file existed the first call returns the key it generated and wrote;
  when one existed it returns the contents and leaves the world as it was.
\<close>

theorem load_key_idempotent:
  "(let first = load_key w; k1 = fst (fst first); w1 = snd first;
        second = load_key w1; k2 = fst (fst second); w2 = snd second
    in k2 = k1 \<and> w2 = w1 \<and> key_file w1 = Some k1 \<and> snd (fst second) = [] \<and>
       (case key_file w of
          None \<Rightarrow> snd (fst first) = [KeyFileNotFound] \<and> k1 = fresh_keys w (drawn w)
                    \<and> drawn w1 = Suc (drawn w)
        | Some k \<Rightarrow> snd (fst first) = [] \<and> k1 = k \<and> w1 = w))"
  by (simp add: load_key_def generate_key_def Let_def split: option.splits)

theorem load_key_idempotent_witness:
  "fst (fst (load_key \<lparr>key_file = None, fresh_keys = (\<lambda>n. [of_nat n, 42]), drawn = 5\<rparr>)) = [5, 42] \<and>
   fst (fst (load_key (snd (load_key
      \<lparr>key_file = None, fresh_keys = (\<lambda>n. [of_nat n, 42]), drawn = 5\<rparr>)))) = [5, 42]"
  using load_key_idempotent [of "\<lparr>key_file = None, fresh_keys = (\<lambda>n. [of_nat n, 42]), drawn = 5\<rparr>"]
  by (simp add: Let_def)

section \<open>Loading the data file\<close>

text \<open>
  What \<open>load_data\<close> recovers from: no file, an empty file, and a text that \<open>json.loads\<close>
  rejects with \<open>JSONDecodeError\<close>.
\<close>

lemma load_data_recovers:
  "load_data loads Absent = Inr (JObject [], [])"
  "load_data loads (Contents []) = Inr (JObject [], [])"
  "text_read bs = Inr content \<Longrightarrow> content \<noteq> [] \<Longrightarrow> loads content = Inl JSONDecodeError \<Longrightarrow>
     load_data loads (Contents bs) = Inr (JObject [], [ErrorReadingDataFile])"
  by (simp_all add: load_data_def try_except_def bind_exn_def text_read_def bytes_decode_def)

text \<open>
  Claim C8 at a data file that holds the single byte \<open>0x81\<close>: reading the file as text
  raises \<open>UnicodeDecodeError\<close> inside the \<open>try\<close> block, the clause
  \<open>except json.JSONDecodeError\<close> does not name it, and it leaves \<open>load_data\<close>.
\<close>

theorem load_data_raises_on_undecodable_file:
  "load_data loads (Contents [0x81]) = Inl UnicodeDecodeError"
  by (simp add: load_data_def try_except_def bind_exn_def text_read_def bytes_decode_def
      utf8_decode_cp.simps)

section \<open>Retrieval\<close>

lemma decrypt_data_returns: "\<exists>res. decrypt_data cs ct = Inr res"
  by (auto simp: decrypt_data_def try_except_def bind_exn_def any_Exception_def
      split: sum.splits)

lemma retrieve_loop_no_match:
  "\<forall>(j, x)\<in>set items. passkey_hash x \<noteq> h \<Longrightarrow>
   retrieve_loop cs h items st = Inr ([], st, False)"
  by (induction items) auto

lemma retrieve_loop_first_match:
  assumes "items = pre @ (i, it) # post" and "passkey_hash it = h"
      and "\<forall>(j, x)\<in>set pre. passkey_hash x \<noteq> h"
  shows "retrieve_loop cs h items st =
           (case decrypt_data cs (encrypted_text it) of
              Inl e \<Rightarrow> Inl e
            | Inr (Some p) \<Rightarrow> Inr ([DecryptedData p], st\<lparr>attempts := 0\<rparr>, True)
            | Inr None \<Rightarrow> Inr ([DecryptionFailed], st, True))"
  using assms by (induction pre arbitrary: items) auto

lemma render_retrieve_submit:
  assumes "truthy_user s = Some user" and "map_of (stored_data s) user = Some items"
      and "items \<noteq> []" and "\<not> locked (attempt_state_of s user)" and "passkey \<noteq> []"
  shows "render_retrieve sha256 cs (SubmitRetrieve passkey) s
           = retrieve_attempt sha256 cs user items passkey s"
  using assms by (simp add: render_retrieve_def Let_def split: prod.splits)

lemma retrieve_attempt_no_match:
  assumes "hash_passkey sha256 passkey = Inr h"
      and "\<forall>(j, x)\<in>set items. passkey_hash x \<noteq> h"
  shows "retrieve_attempt sha256 cs user items passkey s =
           (let st2 = (attempt_state_of s user)\<lparr>attempts := attempts (attempt_state_of s user) + 1\<rparr>
            in if attempts st2 \<ge> MAX_ATTEMPTS
               then (if login_attempts s user \<noteq> None
                     then s\<lparr>login_attempts := (login_attempts s)(user \<mapsto> st2\<lparr>locked := True\<rparr>)\<rparr>
                     else s,
                     [IncorrectPasskey (attempts st2), AccountLocked], Rerun)
               else (s\<lparr>login_attempts := (login_attempts s)(user \<mapsto> st2)\<rparr>,
                     [IncorrectPasskey (attempts st2)], Completed))"
  using assms by (simp add: retrieve_attempt_def Let_def retrieve_loop_no_match)

lemma retrieve_attempt_first_match:
  assumes "hash_passkey sha256 passkey = Inr h"
      and "items = pre @ (i, it) # post" and "passkey_hash it = h"
      and "\<forall>(j, x)\<in>set pre. passkey_hash x \<noteq> h"
  shows "retrieve_attempt sha256 cs user items passkey s =
           (case decrypt_data cs (encrypted_text it) of
              Inl e \<Rightarrow> (s, [], Raised e)
            | Inr (Some p) \<Rightarrow>
                (s\<lparr>login_attempts := (login_attempts s)(user \<mapsto> (attempt_state_of s user)\<lparr>attempts := 0\<rparr>)\<rparr>,
                 [DecryptedData p], Completed)
            | Inr None \<Rightarrow>
                (s\<lparr>login_attempts := (login_attempts s)(user \<mapsto> attempt_state_of s user)\<rparr>,
                 [DecryptionFailed], Completed))"
  using assms(1)
  by (simp add: retrieve_attempt_def Let_def retrieve_loop_first_match [OF assms(2-4)]
      split: sum.splits option.splits)

lemma first_matching_item:
  assumes "(j, x) \<in> set items" and "passkey_hash x = h"
  shows "\<exists>pre i it post. items = pre @ (i, it) # post \<and> passkey_hash it = h
           \<and> (\<forall>(j, x)\<in>set pre. passkey_hash x \<noteq> h)"
proof -
  have "\<exists>y\<in>set items. passkey_hash (snd y) = h"
    using assms by force
  then obtain pre y post where "items = pre @ y # post" "passkey_hash (snd y) = h"
      "\<forall>z\<in>set pre. passkey_hash (snd z) \<noteq> h"
    using split_list_first_prop [of items "\<lambda>y. passkey_hash (snd y) = h"] by blast
  then show ?thesis
    by (cases y) (auto simp: case_prod_beta)
qed

lemma hexdigest_last: "last (hexdigest w) = hex_digit (unat w mod 16)"
proof -
  have ne: "rev [0..<64] \<noteq> ([] :: nat list)" by simp
  have "last (hexdigest w) = hex_digit (unat (drop_bit (4 * last (rev [0..<64])) w) mod 16)"
    unfolding hexdigest_def using last_map [OF ne] by blast
  also have "last (rev [0..<64]) = (0::nat)"
    by (simp add: last_rev upt_rec [of 0])
  finally show ?thesis by simp
qed

lemma demo_digests:
  "last (hexdigest (demo_sha256 [107, 49])) = 49"
  "last (hexdigest (demo_sha256 [107, 50])) = 50"
  "last (hexdigest (demo_sha256 [107, 51])) = 51"
  by (simp_all add: hexdigest_last demo_sha256_def hex_digit_def)

lemma demo_digests_differ:
  "hexdigest (demo_sha256 [107, 49]) \<noteq> hexdigest (demo_sha256 [107, 50])"
  "hexdigest (demo_sha256 [107, 49]) \<noteq> hexdigest (demo_sha256 [107, 51])"
  "hexdigest (demo_sha256 [107, 50]) \<noteq> hexdigest (demo_sha256 [107, 51])"
proof -
  show "hexdigest (demo_sha256 [107, 49]) \<noteq> hexdigest (demo_sha256 [107, 50])"
    using demo_digests(1,2) by auto
  show "hexdigest (demo_sha256 [107, 49]) \<noteq> hexdigest (demo_sha256 [107, 51])"
    using demo_digests(1,3) by auto
  show "hexdigest (demo_sha256 [107, 50]) \<noteq> hexdigest (demo_sha256 [107, 51])"
    using demo_digests(2,3) by auto
qed

lemma demo_plaintexts:
  "decrypt_data (demo_fernet 7) [65, 72, 65, 74, 71, 73, 71, 74] = Inr (Some [104, 105])"
  "decrypt_data (demo_fernet 7) [65, 72, 65, 74, 72, 74, 71, 80] = Inr (Some [121, 111])"
  "decrypt_data (demo_fernet 7) [33] = Inr None"
  by (simp_all add: decrypt_data_def try_except_def bind_exn_def any_Exception_def
      str_encode_def utf8_encode_cp_def demo_fernet_def bytes_decode_def utf8_decode_cp.simps)

lemma demo_hashes:
  "hash_passkey demo_sha256 [107, 49] = Inr (hexdigest (demo_sha256 [107, 49]))"
  "hash_passkey demo_sha256 [107, 50] = Inr (hexdigest (demo_sha256 [107, 50]))"
  "hash_passkey demo_sha256 [107, 51] = Inr (hexdigest (demo_sha256 [107, 51]))"
  by (simp_all add: hash_passkey_def bind_exn_def str_encode_def utf8_encode_cp_def)

lemma demo_state_user:
  "truthy_user demo_state = Some alice"
  "map_of (stored_data demo_state) alice = Some demo_items"
  "attempt_state_of demo_state alice = \<lparr>attempts = 0, locked = False\<rparr>"
  by (simp_all add: demo_state_def truthy_user_def alice_def attempt_state_of_def)

text \<open>
  Claim C6. When the form is open (a user with items who is not locked out submits a
  passkey that hashes to \<open>h\<close>), and the user's items are \<open>pre\<close>, then the item \<open>it\<close>, then
  \<open>post\<close>, in insertion order, where \<open>it\<close> carries the hash \<open>h\<close> and no item of \<open>pre\<close> does, the
  page displays the plaintext of \<open>it\<close> and nothing else (the failure message when \<open>it\<close>
  does not decrypt). With \<open>pre\<close> a first item under another passkey this is the scenario
  of two distinct passkeys; with \<open>post\<close> holding an item of the same hash it is the shared
  passkey, resolved to the first stored.
\<close>

theorem retrieval_returns_first_match:
  assumes "truthy_user s = Some user" and "map_of (stored_data s) user = Some items"
      and "\<not> locked (attempt_state_of s user)"
      and "passkey \<noteq> []" and "hash_passkey sha256 passkey = Inr h"
      and "items = pre @ (i, it) # post" and "passkey_hash it = h"
      and "\<forall>(j, x)\<in>set pre. passkey_hash x \<noteq> h"
  shows "fst (snd (render_retrieve sha256 cs (SubmitRetrieve passkey) s)) =
           (case decrypt_data cs (encrypted_text it) of
              Inr (Some plaintext) \<Rightarrow> [DecryptedData plaintext]
            | _ \<Rightarrow> [DecryptionFailed])"
proof -
  have "items \<noteq> []" using assms(6) by simp
  then have "render_retrieve sha256 cs (SubmitRetrieve passkey) s
               = retrieve_attempt sha256 cs user items passkey s"
    using assms(1-4) by (intro render_retrieve_submit)
  moreover obtain res where "decrypt_data cs (encrypted_text it) = Inr res"
    using decrypt_data_returns by blast
  ultimately show ?thesis
    using retrieve_attempt_first_match [OF assms(5-8), of cs user s]
    by (simp split: option.splits)
qed

theorem retrieval_returns_first_match_witness:
  "fst (snd (render_retrieve demo_sha256 (demo_fernet 7) (SubmitRetrieve [107, 50]) demo_state))
     = [DecryptedData [121, 111]]"
proof -
  have split: "demo_items =
      [(data_id_of 1, \<lparr>encrypted_text = [65, 72, 65, 74, 71, 73, 71, 74],
                       passkey_hash = hexdigest (demo_sha256 [107, 49])\<rparr>)]
      @ (data_id_of 2, \<lparr>encrypted_text = [65, 72, 65, 74, 72, 74, 71, 80],
                         passkey_hash = hexdigest (demo_sha256 [107, 50])\<rparr>)
      # [(data_id_of 3, \<lparr>encrypted_text = [65, 72, 65, 74, 71, 74],
                         passkey_hash = hexdigest (demo_sha256 [107, 50])\<rparr>),
         (data_id_of 4, \<lparr>encrypted_text = [33],
                         passkey_hash = hexdigest (demo_sha256 [107, 51])\<rparr>)]"
    by (simp add: demo_items_def)
  have unlocked: "\<not> locked (attempt_state_of demo_state alice)"
    by (simp add: demo_state_user)
  have earlier: "\<forall>(j, x)\<in>set [(data_id_of 1, \<lparr>encrypted_text = [65, 72, 65, 74, 71, 73, 71, 74],
                       passkey_hash = hexdigest (demo_sha256 [107, 49])\<rparr>)].
                   passkey_hash x \<noteq> hexdigest (demo_sha256 [107, 50])"
    by (simp add: demo_digests_differ)
  show ?thesis
    using retrieval_returns_first_match [OF demo_state_user(1,2) unlocked _ demo_hashes(2)
        split _ earlier, of "demo_fernet 7"]
    by (simp add: demo_plaintexts)
qed

text \<open>
  Claim C4. When the hash of the passkey submitted equals the hash of a stored item \<open>x\<close>
  whose ciphertext does not decrypt, the attempt counter of the user does not grow and the
  user stays unlocked. When \<open>x\<close> is the first item with that hash, the attempt state is
  left as it was and the failure message is displayed.
\<close>

theorem decrypt_failure_not_counted:
  assumes "truthy_user s = Some user" and "map_of (stored_data s) user = Some items"
      and "\<not> locked (attempt_state_of s user)"
      and "passkey \<noteq> []" and "hash_passkey sha256 passkey = Inr h"
      and "(j, x) \<in> set items" and "passkey_hash x = h"
      and "decrypt_data cs (encrypted_text x) = Inr None"
      and "out = render_retrieve sha256 cs (SubmitRetrieve passkey) s"
  shows "attempts (attempt_state_of (fst out) user) \<le> attempts (attempt_state_of s user)
         \<and> \<not> locked (attempt_state_of (fst out) user)
         \<and> (\<forall>pre post. items = pre @ (j, x) # post \<and> (\<forall>(k, y)\<in>set pre. passkey_hash y \<noteq> h)
              \<longrightarrow> attempt_state_of (fst out) user = attempt_state_of s user
                  \<and> fst (snd out) = [DecryptionFailed])"
proof -
  have ne: "items \<noteq> []" using assms(6) by auto
  have run: "out = retrieve_attempt sha256 cs user items passkey s"
    unfolding assms(9) using assms(1-4) ne by (intro render_retrieve_submit)
  obtain pre i it post where dec: "items = pre @ (i, it) # post" "passkey_hash it = h"
      "\<forall>(j, x)\<in>set pre. passkey_hash x \<noteq> h"
    using first_matching_item [OF assms(6,7)] by blast
  obtain res where res: "decrypt_data cs (encrypted_text it) = Inr res"
    using decrypt_data_returns by blast
  have "retrieve_attempt sha256 cs user items passkey s =
      (case res of
         Some p \<Rightarrow>
           (s\<lparr>login_attempts := (login_attempts s)(user \<mapsto> (attempt_state_of s user)\<lparr>attempts := 0\<rparr>)\<rparr>,
            [DecryptedData p], Completed)
       | None \<Rightarrow>
           (s\<lparr>login_attempts := (login_attempts s)(user \<mapsto> attempt_state_of s user)\<rparr>,
            [DecryptionFailed], Completed))"
    using retrieve_attempt_first_match [OF assms(5) dec, of cs user s] res by simp
  then have le: "attempts (attempt_state_of (fst out) user) \<le> attempts (attempt_state_of s user)"
    and unl: "\<not> locked (attempt_state_of (fst out) user)"
    using assms(3) unfolding run
    by (simp_all add: attempt_state_of_def split: option.splits)
  have same: "attempt_state_of (fst out) user = attempt_state_of s user
                \<and> fst (snd out) = [DecryptionFailed]"
    if "items = pre' @ (j, x) # post'" and "\<forall>(k, y)\<in>set pre'. passkey_hash y \<noteq> h"
    for pre' post'
    unfolding run
    using retrieve_attempt_first_match [OF assms(5) that(1) assms(7) that(2), of cs user s]
      assms(8)
    by (simp add: attempt_state_of_def)
  show ?thesis using le unl same by blast
qed

theorem decrypt_failure_not_counted_witness:
  "attempts (attempt_state_of
      (fst (render_retrieve demo_sha256 (demo_fernet 7) (SubmitRetrieve [107, 51]) demo_state))
      alice) \<le> attempts (attempt_state_of demo_state alice) \<and>
   attempt_state_of
      (fst (render_retrieve demo_sha256 (demo_fernet 7) (SubmitRetrieve [107, 51]) demo_state))
      alice = attempt_state_of demo_state alice \<and>
   fst (snd (render_retrieve demo_sha256 (demo_fernet 7) (SubmitRetrieve [107, 51]) demo_state))
      = [DecryptionFailed]"
proof -
  define bad where "bad = \<lparr>encrypted_text = [33], passkey_hash = hexdigest (demo_sha256 [107, 51])\<rparr>"
  define pre where "pre =
      [(data_id_of 1, \<lparr>encrypted_text = [65, 72, 65, 74, 71, 73, 71, 74],
                       passkey_hash = hexdigest (demo_sha256 [107, 49])\<rparr>),
       (data_id_of 2, \<lparr>encrypted_text = [65, 72, 65, 74, 72, 74, 71, 80],
                       passkey_hash = hexdigest (demo_sha256 [107, 50])\<rparr>),
       (data_id_of 3, \<lparr>encrypted_text = [65, 72, 65, 74, 71, 74],
                       passkey_hash = hexdigest (demo_sha256 [107, 50])\<rparr>)]"
  have split: "demo_items = pre @ (data_id_of 4, bad) # []"
    by (simp add: demo_items_def pre_def bad_def)
  have mem: "(data_id_of 4, bad) \<in> set demo_items"
    by (simp add: split)
  have unlocked: "\<not> locked (attempt_state_of demo_state alice)"
    by (simp add: demo_state_user)
  have earlier: "\<forall>(k, y)\<in>set pre. passkey_hash y \<noteq> hexdigest (demo_sha256 [107, 51])"
    using demo_digests_differ by (simp add: pre_def)
  have fails: "decrypt_data (demo_fernet 7) (encrypted_text bad) = Inr None"
    by (simp add: bad_def demo_plaintexts)
  have hashed: "passkey_hash bad = hexdigest (demo_sha256 [107, 51])"
    by (simp add: bad_def)
  show ?thesis
    using decrypt_failure_not_counted [OF demo_state_user(1,2) unlocked _ demo_hashes(3)
        mem hashed fails refl] split earlier
    by blast
qed

section \<open>Lockout\<close>

lemma truthy_user_login_attempts [simp]:
  "truthy_user (s\<lparr>login_attempts := la\<rparr>) = truthy_user s"
  by (simp add: truthy_user_def)

lemma truthy_user_nonempty: "truthy_user s = Some user \<Longrightarrow> user \<noteq> [] \<and> logged_in_user s = Some user"
  by (auto simp: truthy_user_def split: option.splits if_splits)

lemma failed_attempt_step:
  assumes "truthy_user s = Some user" and "map_of (stored_data s) user = Some items"
      and "items \<noteq> []" and "login_attempts s user = Some \<lparr>attempts = n, locked = False\<rparr>"
      and "passkey \<noteq> []" and "hash_passkey sha256 passkey = Inr h"
      and "\<forall>(j, x)\<in>set items. passkey_hash x \<noteq> h"
  shows "render_retrieve sha256 cs (SubmitRetrieve passkey) s =
           (s\<lparr>login_attempts :=
                (login_attempts s)(user \<mapsto> \<lparr>attempts = n + 1, locked = (MAX_ATTEMPTS \<le> n + 1)\<rparr>)\<rparr>,
            IncorrectPasskey (n + 1) # (if MAX_ATTEMPTS \<le> n + 1 then [AccountLocked] else []),
            if MAX_ATTEMPTS \<le> n + 1 then Rerun else Completed)"
proof -
  have st: "attempt_state_of s user = \<lparr>attempts = n, locked = False\<rparr>"
    using assms(4) by (simp add: attempt_state_of_def)
  then have "render_retrieve sha256 cs (SubmitRetrieve passkey) s
               = retrieve_attempt sha256 cs user items passkey s"
    using assms(1-3,5) by (intro render_retrieve_submit) simp_all
  then show ?thesis
    using retrieve_attempt_no_match [OF assms(6,7), of cs user s] assms(4) st
    by (simp add: Let_def)
qed

lemma locked_form_refused:
  assumes "truthy_user s = Some user" and "map_of (stored_data s) user = Some items"
      and "items \<noteq> []" and "locked (attempt_state_of s user)"
  shows "render_retrieve sha256 cs (SubmitRetrieve passkey) s = (s, [MaxAttemptsReached], Completed)"
  using assms by (simp add: render_retrieve_def Let_def)

lemma login_resets:
  assumes "username \<noteq> []"
  shows "login_attempts (fst (render_login (SubmitLogin username password) s)) username
           = Some \<lparr>attempts = 0, locked = False\<rparr>"
  using assms
  by (simp add: render_login_def navigate_to_def truthy_user_def Let_def split: option.splits)

lemma demo_wrong_passkeys:
  "hash_passkey demo_sha256 [119, 52] = Inr (hexdigest (demo_sha256 [119, 52]))"
  "hash_passkey demo_sha256 [119, 53] = Inr (hexdigest (demo_sha256 [119, 53]))"
  "hash_passkey demo_sha256 [119, 54] = Inr (hexdigest (demo_sha256 [119, 54]))"
  by (simp_all add: hash_passkey_def bind_exn_def str_encode_def utf8_encode_cp_def)

lemma demo_wrong_digests:
  "last (hexdigest (demo_sha256 [119, 52])) = 52"
  "last (hexdigest (demo_sha256 [119, 53])) = 53"
  "last (hexdigest (demo_sha256 [119, 54])) = 54"
  by (simp_all add: hexdigest_last demo_sha256_def hex_digit_def)

lemma demo_no_match:
  "\<forall>(j, x)\<in>set demo_items. passkey_hash x \<noteq> hexdigest (demo_sha256 [119, 52])"
  "\<forall>(j, x)\<in>set demo_items. passkey_hash x \<noteq> hexdigest (demo_sha256 [119, 53])"
  "\<forall>(j, x)\<in>set demo_items. passkey_hash x \<noteq> hexdigest (demo_sha256 [119, 54])"
  using demo_digests demo_wrong_digests by (auto simp: demo_items_def)

lemma demo_state_entry:
  "login_attempts demo_state alice = Some \<lparr>attempts = 0, locked = False\<rparr>"
  "demo_items \<noteq> []"
  by (simp_all add: demo_state_def demo_items_def)

text \<open>
  Claim C2. A logged-in user with stored items starts at no failed attempt and unlocked.
  Three submissions in a row of a passkey whose hash no item carries leave the counter at
  1, at 2, and then at 3 with the user locked. In that state every submission on the
  retrieval page is refused: the state stays as it is and the page displays that the
  maximum is reached. A login with that username puts the entry back to no failed attempt
  and unlocked.
\<close>

theorem three_failures_lock_until_login:
  assumes "truthy_user s = Some user" and "map_of (stored_data s) user = Some items"
      and "items \<noteq> []" and "login_attempts s user = Some \<lparr>attempts = 0, locked = False\<rparr>"
      and "p1 \<noteq> []" and "hash_passkey sha256 p1 = Inr h1"
      and "\<forall>(j, x)\<in>set items. passkey_hash x \<noteq> h1"
      and "p2 \<noteq> []" and "hash_passkey sha256 p2 = Inr h2"
      and "\<forall>(j, x)\<in>set items. passkey_hash x \<noteq> h2"
      and "p3 \<noteq> []" and "hash_passkey sha256 p3 = Inr h3"
      and "\<forall>(j, x)\<in>set items. passkey_hash x \<noteq> h3"
      and "s1 = fst (render_retrieve sha256 cs (SubmitRetrieve p1) s)"
      and "s2 = fst (render_retrieve sha256 cs (SubmitRetrieve p2) s1)"
      and "s3 = fst (render_retrieve sha256 cs (SubmitRetrieve p3) s2)"
  shows "login_attempts s1 user = Some \<lparr>attempts = 1, locked = False\<rparr>
       \<and> login_attempts s2 user = Some \<lparr>attempts = 2, locked = False\<rparr>
       \<and> login_attempts s3 user = Some \<lparr>attempts = 3, locked = True\<rparr>
       \<and> (\<forall>p. render_retrieve sha256 cs (SubmitRetrieve p) s3 = (s3, [MaxAttemptsReached], Completed))
       \<and> (\<forall>pw. login_attempts (fst (render_login (SubmitLogin user pw) s3)) user
                  = Some \<lparr>attempts = 0, locked = False\<rparr>)"
proof -
  have s1: "s1 = s\<lparr>login_attempts := (login_attempts s)(user \<mapsto> \<lparr>attempts = 1, locked = False\<rparr>)\<rparr>"
    unfolding assms(14) failed_attempt_step [OF assms(1-7)] by (simp add: MAX_ATTEMPTS_def numeral_2_eq_2 numeral_3_eq_3)
  have u1: "truthy_user s1 = Some user" "map_of (stored_data s1) user = Some items"
    "login_attempts s1 user = Some \<lparr>attempts = 1, locked = False\<rparr>"
    using assms(1,2) by (simp_all add: s1)
  have s2: "s2 = s1\<lparr>login_attempts := (login_attempts s1)(user \<mapsto> \<lparr>attempts = 2, locked = False\<rparr>)\<rparr>"
    unfolding assms(15) failed_attempt_step [OF u1(1,2) assms(3) u1(3) assms(8-10)]
    by (simp add: MAX_ATTEMPTS_def numeral_2_eq_2 numeral_3_eq_3)
  have u2: "truthy_user s2 = Some user" "map_of (stored_data s2) user = Some items"
    "login_attempts s2 user = Some \<lparr>attempts = 2, locked = False\<rparr>"
    using u1(1,2) by (simp_all add: s2)
  have s3: "s3 = s2\<lparr>login_attempts := (login_attempts s2)(user \<mapsto> \<lparr>attempts = 3, locked = True\<rparr>)\<rparr>"
    unfolding assms(16) failed_attempt_step [OF u2(1,2) assms(3) u2(3) assms(11-13)]
    by (simp add: MAX_ATTEMPTS_def numeral_2_eq_2 numeral_3_eq_3)
  have u3: "truthy_user s3 = Some user" "map_of (stored_data s3) user = Some items"
    "login_attempts s3 user = Some \<lparr>attempts = 3, locked = True\<rparr>"
    using u2(1,2) by (simp_all add: s3)
  have l3: "locked (attempt_state_of s3 user)"
    using u3(3) by (simp add: attempt_state_of_def)
  have refused: "render_retrieve sha256 cs (SubmitRetrieve p) s3 = (s3, [MaxAttemptsReached], Completed)"
    for p
    by (rule locked_form_refused [OF u3(1,2) assms(3) l3])
  have "user \<noteq> []" using assms(1) by (simp add: truthy_user_nonempty)
  then have relogin: "login_attempts (fst (render_login (SubmitLogin user pw) s3)) user
                        = Some \<lparr>attempts = 0, locked = False\<rparr>" for pw
    by (rule login_resets)
  show ?thesis using u1(3) u2(3) u3(3) refused relogin by blast
qed

theorem three_failures_lock_until_login_witness:
  "(let s1 = fst (render_retrieve demo_sha256 (demo_fernet 7) (SubmitRetrieve [119, 52]) demo_state);
        s2 = fst (render_retrieve demo_sha256 (demo_fernet 7) (SubmitRetrieve [119, 53]) s1);
        s3 = fst (render_retrieve demo_sha256 (demo_fernet 7) (SubmitRetrieve [119, 54]) s2)
    in login_attempts s3 alice = Some \<lparr>attempts = 3, locked = True\<rparr>
       \<and> render_retrieve demo_sha256 (demo_fernet 7) (SubmitRetrieve [107, 49]) s3
            = (s3, [MaxAttemptsReached], Completed)
       \<and> login_attempts (fst (render_login (SubmitLogin alice [120]) s3)) alice
            = Some \<lparr>attempts = 0, locked = False\<rparr>)"
  using three_failures_lock_until_login [OF demo_state_user(1,2) demo_state_entry(2,1)
      _ demo_wrong_passkeys(1) demo_no_match(1)
      _ demo_wrong_passkeys(2) demo_no_match(2)
      _ demo_wrong_passkeys(3) demo_no_match(3) refl refl refl, of "demo_fernet 7"]
  by (simp add: Let_def)

section \<open>The attempt states across all runs\<close>

lemma entry_step_refl [simp]: "entry_step e e"
  by (simp add: entry_step_def)

lemma navigate_to_fields [simp]:
  "logged_in_user (navigate_to page s) = logged_in_user s"
  "truthy_user (navigate_to page s) = truthy_user s"
  "stored_data (navigate_to page s) = stored_data s"
  "written (navigate_to page s) = written s"
  "current_page (navigate_to page s) = page"
  by (simp_all add: navigate_to_def truthy_user_def Let_def split: option.splits)

lemma navigate_to_entries:
  "login_attempts (navigate_to page s) user =
     (if page \<noteq> ''Retrieve'' \<and> truthy_user s = Some user
      then map_option (\<lambda>st. st\<lparr>attempts := 0\<rparr>) (login_attempts s user)
      else login_attempts s user)"
  by (auto simp: navigate_to_def Let_def split: option.splits)

lemma navigate_to_entry_step:
  "entry_step (login_attempts s user) (login_attempts (navigate_to page s) user)"
  by (cases "login_attempts s user") (auto simp: navigate_to_entries entry_step_def)

lemma navigate_to_dom:
  "login_attempts (navigate_to page s) user = None \<longleftrightarrow> login_attempts s user = None"
  by (simp add: navigate_to_entries)

lemma navigate_to_has_entry: "has_entry s \<Longrightarrow> has_entry (navigate_to page s)"
  by (auto simp: has_entry_def navigate_to_entries)

lemma render_login_effect:
  assumes "has_entry s"
  shows "entry_step (login_attempts s user) (login_attempts (fst (render_login act s)) user)
         \<and> has_entry (fst (render_login act s))"
proof (cases act)
  case (SubmitLogin username password)
  show ?thesis
  proof (cases "username = []")
    case True
    then show ?thesis using assms SubmitLogin by (simp add: render_login_def)
  next
    case False
    then show ?thesis
      using SubmitLogin
      by (auto simp: render_login_def Let_def navigate_to_entries entry_step_def has_entry_def
          truthy_user_def split: option.splits)
  qed
qed (use assms in \<open>simp_all add: render_login_def\<close>)

lemma render_home_effect:
  assumes "has_entry s"
  shows "entry_step (login_attempts s user) (login_attempts (fst (render_home act s)) user)
         \<and> has_entry (fst (render_home act s))"
  using assms
  by (auto simp: render_home_def Let_def navigate_to_entries entry_step_def has_entry_def
      truthy_user_def split: option.splits if_splits)

lemma save_data_fields [simp]:
  "login_attempts (fst (save_data d s)) = login_attempts s"
  "logged_in_user (fst (save_data d s)) = logged_in_user s"
  "truthy_user (fst (save_data d s)) = truthy_user s"
  "stored_data (fst (save_data d s)) = stored_data s"
  "current_page (fst (save_data d s)) = current_page s"
  by (simp_all add: save_data_def truthy_user_def)

lemma render_store_submit_fields:
  "login_attempts (fst (render_store sha256 cs r (SubmitStore t p) s)) = login_attempts s"
  "logged_in_user (fst (render_store sha256 cs r (SubmitStore t p) s)) = logged_in_user s"
  by (simp_all add: render_store_def Let_def case_prod_unfold navigate_to_def truthy_user_def
      split: sum.splits option.splits)

lemma render_store_effect:
  assumes "has_entry s"
  shows "entry_step (login_attempts s user) (login_attempts (fst (render_store sha256 cs r act s)) user)
         \<and> has_entry (fst (render_store sha256 cs r act s))"
proof (cases act)
  case (SubmitStore data_to_store passkey_store)
  then show ?thesis
    using assms by (simp add: render_store_submit_fields has_entry_def truthy_user_def)
qed (use assms navigate_to_entry_step [of s user] navigate_to_has_entry [of s] in
      \<open>auto simp: render_store_def split: option.splits\<close>)

lemma retrieve_loop_result:
  assumes "retrieve_loop cs h items st = Inr (msgs, st1, found)"
  shows "(found \<and> (st1 = st \<and> msgs = [DecryptionFailed]
                    \<or> (\<exists>p. st1 = st\<lparr>attempts := 0\<rparr> \<and> msgs = [DecryptedData p])))
         \<or> (\<not> found \<and> st1 = st \<and> msgs = [])"
  using assms
  by (induction items) (auto split: if_splits sum.splits option.splits)

lemma retrieve_attempt_effect:
  assumes "login_attempts s user = Some st" and "\<not> locked st"
      and "out = retrieve_attempt sha256 cs user items passkey s"
  shows "logged_in_user (fst out) = logged_in_user s"
    and "v \<noteq> user \<Longrightarrow> login_attempts (fst out) v = login_attempts s v"
    and "entry_step (Some st) (login_attempts (fst out) user)"
    and "DecryptedData t \<in> set (fst (snd out))
           \<Longrightarrow> login_attempts (fst out) user = Some \<lparr>attempts = 0, locked = False\<rparr>"
    and "snd (snd out) = Completed \<Longrightarrow> fst out = s\<lparr>login_attempts := login_attempts (fst out)\<rparr>"
proof -
  have st: "attempt_state_of s user = st"
    using assms(1) by (simp add: attempt_state_of_def)
  show "logged_in_user (fst out) = logged_in_user s"
    unfolding assms(3) retrieve_attempt_def
    by (simp add: Let_def split: sum.splits prod.splits)
  show "login_attempts (fst out) v = login_attempts s v" if "v \<noteq> user"
    using that unfolding assms(3) retrieve_attempt_def
    by (simp add: Let_def split: sum.splits prod.splits)
  show "snd (snd out) = Completed \<Longrightarrow> fst out = s\<lparr>login_attempts := login_attempts (fst out)\<rparr>"
    unfolding assms(3) retrieve_attempt_def
    by (simp add: Let_def split: sum.splits prod.splits if_splits)
  show "entry_step (Some st) (login_attempts (fst out) user)"
  proof (cases "hash_passkey sha256 passkey")
    case (Inl e)
    then show ?thesis
      unfolding assms(3) retrieve_attempt_def using assms(1) by simp
  next
    case (Inr h)
    show ?thesis
    proof (cases "retrieve_loop cs h items st")
      case (Inl e)
      then show ?thesis
        unfolding assms(3) retrieve_attempt_def using assms(1) Inr st by simp
    next
      case loop: (Inr res)
      obtain msgs st1 found where res: "res = (msgs, st1, found)"
        by (cases res) auto
      show ?thesis
        using retrieve_loop_result [OF loop [unfolded res]] assms(1,2)
        unfolding assms(3) retrieve_attempt_def
        by (auto simp: Let_def Inr st loop res entry_step_def)
    qed
  qed
  show "login_attempts (fst out) user = Some \<lparr>attempts = 0, locked = False\<rparr>"
    if "DecryptedData t \<in> set (fst (snd out))"
  proof (cases "hash_passkey sha256 passkey")
    case (Inl e)
    then show ?thesis
      using that unfolding assms(3) retrieve_attempt_def by simp
  next
    case (Inr h)
    show ?thesis
    proof (cases "retrieve_loop cs h items st")
      case (Inl e)
      then show ?thesis
        using that unfolding assms(3) retrieve_attempt_def using Inr st by simp
    next
      case loop: (Inr res)
      obtain msgs st1 found where res: "res = (msgs, st1, found)"
        by (cases res) auto
      show ?thesis
        using retrieve_loop_result [OF loop [unfolded res]] assms(1,2) that
        unfolding assms(3) retrieve_attempt_def
        by (auto simp: Let_def Inr st loop res split: if_splits)
    qed
  qed
qed

lemma render_retrieve_cases:
  assumes "truthy_user s = Some user"
  shows "render_retrieve sha256 cs act s =
          (if act = PressBack then
             (navigate_to ''Home'' s,
              if (case map_of (stored_data s) user of None \<Rightarrow> [] | Some c \<Rightarrow> c) = [] then [NoDataYet]
              else if locked (attempt_state_of s user) then [MaxAttemptsReached] else [],
              Rerun)
           else if (case map_of (stored_data s) user of None \<Rightarrow> [] | Some c \<Rightarrow> c) = []
             then (s, [NoDataYet], Completed)
           else if locked (attempt_state_of s user) then (s, [MaxAttemptsReached], Completed)
           else (case act of
                   SubmitRetrieve passkey \<Rightarrow>
                     if passkey \<noteq> []
                     then retrieve_attempt sha256 cs user
                            (case map_of (stored_data s) user of None \<Rightarrow> [] | Some c \<Rightarrow> c) passkey s
                     else (s, [EnterPasskey], Completed)
                 | _ \<Rightarrow> (s, [], Completed)))"
  using assms
  by (cases act) (simp_all add: render_retrieve_def Let_def split: prod.splits)

lemma render_retrieve_effect:
  assumes "has_entry s" and "out = render_retrieve sha256 cs act s"
  shows "entry_step (login_attempts s v) (login_attempts (fst out) v)"
    and "has_entry (fst out)"
    and "truthy_user s = Some user \<Longrightarrow> DecryptedData t \<in> set (fst (snd out))
           \<Longrightarrow> login_attempts (fst out) user = Some \<lparr>attempts = 0, locked = False\<rparr>"
proof -
  show "entry_step (login_attempts s v) (login_attempts (fst out) v)"
    and "has_entry (fst out)"
  proof (atomize (full), cases "truthy_user s")
    case None
    then show "entry_step (login_attempts s v) (login_attempts (fst out) v) \<and> has_entry (fst out)"
      using assms(1) navigate_to_entry_step [of s v] navigate_to_has_entry [of s]
      unfolding assms(2) by (simp add: render_retrieve_def)
  next
    case (Some u)
    then obtain st where st: "login_attempts s u = Some st"
      using assms(1) by (auto simp: has_entry_def)
    have aso: "attempt_state_of s u = st"
      using st by (simp add: attempt_state_of_def)
    define items where "items = (case map_of (stored_data s) u of None \<Rightarrow> [] | Some c \<Rightarrow> c)"
    show "entry_step (login_attempts s v) (login_attempts (fst out) v) \<and> has_entry (fst out)"
    proof (cases "\<exists>passkey. act = SubmitRetrieve passkey \<and> passkey \<noteq> [] \<and> items \<noteq> []
                      \<and> \<not> locked st")
      case True
      then obtain passkey where act: "act = SubmitRetrieve passkey" "passkey \<noteq> []"
        "items \<noteq> []" "\<not> locked st" by blast
      have out: "out = retrieve_attempt sha256 cs u items passkey s"
        unfolding assms(2) render_retrieve_cases [OF Some] using act aso
        by (simp add: items_def)
      note eff = retrieve_attempt_effect [OF st act(4) out]
      have "entry_step (login_attempts s v) (login_attempts (fst out) v)"
        using eff(2) [of v] eff(3) st by (cases "v = u") simp_all
      moreover have "has_entry (fst out)"
      proof -
        have "truthy_user (fst out) = Some u"
          using Some eff(1) by (simp add: truthy_user_def)
        moreover have "login_attempts (fst out) u \<noteq> None"
          using eff(3) by (auto simp: entry_step_def)
        ultimately show ?thesis by (simp add: has_entry_def)
      qed
      ultimately show ?thesis by blast
    next
      case False
      then show ?thesis
        using assms(1) navigate_to_entry_step [of s v] navigate_to_has_entry [of s]
        unfolding assms(2) render_retrieve_cases [OF Some] aso items_def [symmetric]
        by (cases act) (auto split: if_splits)
    qed
  qed
  show "login_attempts (fst out) user = Some \<lparr>attempts = 0, locked = False\<rparr>"
    if user: "truthy_user s = Some user" and shown: "DecryptedData t \<in> set (fst (snd out))"
  proof -
    obtain st where st: "login_attempts s user = Some st"
      using assms(1) user by (auto simp: has_entry_def)
    have aso: "attempt_state_of s user = st"
      using st by (simp add: attempt_state_of_def)
    define items where "items = (case map_of (stored_data s) user of None \<Rightarrow> [] | Some c \<Rightarrow> c)"
    have "\<exists>passkey. act = SubmitRetrieve passkey \<and> passkey \<noteq> [] \<and> items \<noteq> [] \<and> \<not> locked st"
      using shown unfolding assms(2) render_retrieve_cases [OF user] aso items_def [symmetric]
      by (cases act) (auto split: if_splits)
    then obtain passkey where act: "act = SubmitRetrieve passkey" "passkey \<noteq> []"
      "items \<noteq> []" "\<not> locked st" by blast
    have out: "out = retrieve_attempt sha256 cs user items passkey s"
      unfolding assms(2) render_retrieve_cases [OF user] using act aso
      by (simp add: items_def)
    show ?thesis
      using retrieve_attempt_effect(4) [OF st act(4) out] shown by blast
  qed
qed

lemma script_effect:
  assumes "has_entry s" and "out = script sha256 cs r act s"
  shows "entry_step (login_attempts s v) (login_attempts (fst out) v)"
    and "has_entry (fst out)"
  using assms(1) render_login_effect [of s v act] render_home_effect [of s v act]
    render_store_effect [of s v sha256 cs r act]
    render_retrieve_effect(1) [OF assms(1) refl, where v = v and ?sha256.0 = sha256 and cs = cs and act = act]
    render_retrieve_effect(2) [OF assms(1) refl, where ?sha256.0 = sha256 and cs = cs and act = act]
    navigate_to_entry_step [of s v "''Login''"] navigate_to_has_entry [of s "''Login''"]
  unfolding assms(2) script_def by auto

lemma entry_step_invariant:
  assumes "entry_step before after"
      and "\<forall>st. before = Some st \<longrightarrow>
             (if locked st then attempts st = 0 \<or> attempts st = MAX_ATTEMPTS
              else attempts st < MAX_ATTEMPTS)"
  shows "\<forall>st. after = Some st \<longrightarrow>
             (if locked st then attempts st = 0 \<or> attempts st = MAX_ATTEMPTS
              else attempts st < MAX_ATTEMPTS)"
    and "(\<not> locked (case before of None \<Rightarrow> \<lparr>attempts = 0, locked = False\<rparr> | Some st \<Rightarrow> st)
          \<and> locked (case after of None \<Rightarrow> \<lparr>attempts = 0, locked = False\<rparr> | Some st \<Rightarrow> st))
         \<longleftrightarrow>
         (attempts (case before of None \<Rightarrow> \<lparr>attempts = 0, locked = False\<rparr> | Some st \<Rightarrow> st)
            < MAX_ATTEMPTS
          \<and> attempts (case after of None \<Rightarrow> \<lparr>attempts = 0, locked = False\<rparr> | Some st \<Rightarrow> st)
            = MAX_ATTEMPTS)"
  using assms
  by (auto simp: entry_step_def MAX_ATTEMPTS_def split: option.splits if_splits)

lemma guard_invariant_has_entry: "guard_invariant s \<Longrightarrow> has_entry s"
  by (simp add: guard_invariant_def has_entry_def)

text \<open>
  Claim C5. The invariant holds in the initial session state, and every run of the script,
  whatever the page and the interaction, keeps it. In such a run a user becomes locked
  exactly when the count of failed attempts reaches \<open>MAX_ATTEMPTS\<close>, which is 3. A login
  with a username leaves the entry of that username at no failed attempt and unlocked, and
  so does a run that displays a decrypted text, for the user logged in. \<open>navigate_to\<close> with
  a page other than the retrieval page resets the count of the user logged in and leaves
  \<open>locked\<close> as it is, and the button back to the home page on the retrieval page is such a
  navigation.
\<close>

theorem attempt_state_invariant:
  "guard_invariant (initial_session data writable) \<and>
   (guard_invariant s \<longrightarrow>
     (let out = script sha256 cs r act s; s' = fst out
      in guard_invariant s'
         \<and> (\<forall>user. (\<not> locked (attempt_state_of s user) \<and> locked (attempt_state_of s' user))
                \<longleftrightarrow> (attempts (attempt_state_of s user) < MAX_ATTEMPTS
                     \<and> attempts (attempt_state_of s' user) = MAX_ATTEMPTS))
         \<and> (\<forall>username password.
               act = SubmitLogin username password \<and> username \<noteq> []
               \<and> (current_page s = ''Login'' \<or> truthy_user s = None)
               \<longrightarrow> login_attempts s' username = Some \<lparr>attempts = 0, locked = False\<rparr>)
         \<and> (\<forall>user plaintext.
               truthy_user s = Some user \<and> DecryptedData plaintext \<in> set (fst (snd out))
               \<longrightarrow> login_attempts s' user = Some \<lparr>attempts = 0, locked = False\<rparr>)
         \<and> (\<forall>user page.
               truthy_user s = Some user \<and> page \<noteq> ''Retrieve''
               \<longrightarrow> attempt_state_of (navigate_to page s) user
                     = (attempt_state_of s user)\<lparr>attempts := 0\<rparr>)
         \<and> (\<forall>user.
               truthy_user s = Some user \<and> current_page s = ''Retrieve'' \<and> act = PressBack
               \<longrightarrow> s' = navigate_to ''Home'' s)))"
proof (intro conjI impI)
  show "guard_invariant (initial_session data writable)"
    by (simp add: guard_invariant_def initial_session_def truthy_user_def)
next
  assume inv: "guard_invariant s"
  define out where "out = script sha256 cs r act s"
  define s' where "s' = fst out"
  have he: "has_entry s" using inv by (rule guard_invariant_has_entry)
  have step: "entry_step (login_attempts s v) (login_attempts s' v)" for v
    unfolding s'_def by (rule script_effect(1) [OF he out_def])
  have he': "has_entry s'"
    unfolding s'_def by (rule script_effect(2) [OF he out_def])
  have ok: "\<forall>st. login_attempts s v = Some st \<longrightarrow>
             (if locked st then attempts st = 0 \<or> attempts st = MAX_ATTEMPTS
              else attempts st < MAX_ATTEMPTS)" for v
    using inv by (simp add: guard_invariant_def)
  have inv': "guard_invariant s'"
    using entry_step_invariant(1) [OF step ok] he'
    by (simp add: guard_invariant_def has_entry_def)
  have lock: "(\<not> locked (attempt_state_of s user) \<and> locked (attempt_state_of s' user))
                \<longleftrightarrow> (attempts (attempt_state_of s user) < MAX_ATTEMPTS
                     \<and> attempts (attempt_state_of s' user) = MAX_ATTEMPTS)" for user
    using entry_step_invariant(2) [OF step ok, of user] by (simp add: attempt_state_of_def)
  have login: "login_attempts s' username = Some \<lparr>attempts = 0, locked = False\<rparr>"
    if "act = SubmitLogin username password" "username \<noteq> []"
       "current_page s = ''Login'' \<or> truthy_user s = None" for username password
    using that login_resets [of username password s] unfolding s'_def out_def script_def
    by auto
  have shown: "login_attempts s' user = Some \<lparr>attempts = 0, locked = False\<rparr>"
    if user: "truthy_user s = Some user" and msg: "DecryptedData plaintext \<in> set (fst (snd out))"
    for user plaintext
  proof -
    have "out = render_retrieve sha256 cs act s"
    proof (rule ccontr)
      assume "out \<noteq> render_retrieve sha256 cs act s"
      then have "DecryptedData plaintext \<notin> set (fst (snd out))"
        using user unfolding out_def script_def
        by (auto simp: render_login_def render_home_def render_store_def Let_def case_prod_unfold
            save_data_def split: action.splits if_splits sum.splits option.splits)
      then show False using msg by simp
    qed
    then show ?thesis
      unfolding s'_def by (rule render_retrieve_effect(3) [OF he _ user msg])
  qed
  have away: "attempt_state_of (navigate_to page s) user = (attempt_state_of s user)\<lparr>attempts := 0\<rparr>"
    if "truthy_user s = Some user" "page \<noteq> ''Retrieve''" for user page
    using that by (simp add: attempt_state_of_def navigate_to_entries split: option.splits)
  have leave: "s' = navigate_to ''Home'' s"
    if "truthy_user s = Some user" "current_page s = ''Retrieve''" "act = PressBack" for user
    using that unfolding s'_def out_def script_def
    by (simp add: render_retrieve_cases)
  show "let out = script sha256 cs r act s; s' = fst out
      in guard_invariant s'
         \<and> (\<forall>user. (\<not> locked (attempt_state_of s user) \<and> locked (attempt_state_of s' user))
                \<longleftrightarrow> (attempts (attempt_state_of s user) < MAX_ATTEMPTS
                     \<and> attempts (attempt_state_of s' user) = MAX_ATTEMPTS))
         \<and> (\<forall>username password.
               act = SubmitLogin username password \<and> username \<noteq> []
               \<and> (current_page s = ''Login'' \<or> truthy_user s = None)
               \<longrightarrow> login_attempts s' username = Some \<lparr>attempts = 0, locked = False\<rparr>)
         \<and> (\<forall>user plaintext.
               truthy_user s = Some user \<and> DecryptedData plaintext \<in> set (fst (snd out))
               \<longrightarrow> login_attempts s' user = Some \<lparr>attempts = 0, locked = False\<rparr>)
         \<and> (\<forall>user page.
               truthy_user s = Some user \<and> page \<noteq> ''Retrieve''
               \<longrightarrow> attempt_state_of (navigate_to page s) user
                     = (attempt_state_of s user)\<lparr>attempts := 0\<rparr>)
         \<and> (\<forall>user.
               truthy_user s = Some user \<and> current_page s = ''Retrieve'' \<and> act = PressBack
               \<longrightarrow> s' = navigate_to ''Home'' s)"
    unfolding Let_def out_def [symmetric] s'_def [symmetric]
    using inv' lock login shown away leave by blast
qed

theorem attempt_state_invariant_witness:
  "(let s0 = demo_state\<lparr>login_attempts := [alice \<mapsto> \<lparr>attempts = 2, locked = False\<rparr>]\<rparr>;
        s' = fst (script demo_sha256 (demo_fernet 7) 9 (SubmitRetrieve [119, 52]) s0)
    in guard_invariant s0 \<and> guard_invariant s'
       \<and> \<not> locked (attempt_state_of s0 alice) \<and> locked (attempt_state_of s' alice)
       \<and> attempts (attempt_state_of s0 alice) = 2
       \<and> attempts (attempt_state_of s' alice) = MAX_ATTEMPTS)"
proof -
  define s0 where "s0 = demo_state\<lparr>login_attempts := [alice \<mapsto> \<lparr>attempts = 2, locked = False\<rparr>]\<rparr>"
  define s' where "s' = fst (script demo_sha256 (demo_fernet 7) 9 (SubmitRetrieve [119, 52]) s0)"
  have user: "truthy_user s0 = Some alice" "map_of (stored_data s0) alice = Some demo_items"
    "login_attempts s0 alice = Some \<lparr>attempts = 2, locked = False\<rparr>"
    "current_page s0 = ''Retrieve''"
    by (simp_all add: s0_def demo_state_def truthy_user_def alice_def)
  have inv: "guard_invariant s0"
    by (auto simp: guard_invariant_def s0_def demo_state_def truthy_user_def MAX_ATTEMPTS_def
        split: if_splits)
  have "script demo_sha256 (demo_fernet 7) 9 (SubmitRetrieve [119, 52]) s0
          = render_retrieve demo_sha256 (demo_fernet 7) (SubmitRetrieve [119, 52]) s0"
    using user by (simp add: script_def)
  then have "login_attempts s' alice = Some \<lparr>attempts = 3, locked = True\<rparr>"
    unfolding s'_def
    using failed_attempt_step [OF user(1,2) demo_state_entry(2) user(3) _ demo_wrong_passkeys(1)
        demo_no_match(1), of "demo_fernet 7"]
    by (simp add: MAX_ATTEMPTS_def)
  then have now: "locked (attempt_state_of s' alice)"
    by (simp add: attempt_state_of_def)
  have before: "\<not> locked (attempt_state_of s0 alice)" "attempts (attempt_state_of s0 alice) = 2"
    using user(3) by (simp_all add: attempt_state_of_def)
  have "guard_invariant s' \<and> attempts (attempt_state_of s' alice) = MAX_ATTEMPTS"
    using attempt_state_invariant [of _ _ s0 demo_sha256 "demo_fernet 7" 9 "SubmitRetrieve [119, 52]"]
      inv now before
    unfolding Let_def s'_def [symmetric] by blast
  then show ?thesis
    unfolding Let_def s0_def [symmetric] s'_def [symmetric]
    using inv now before by simp
qed

section \<open>Storing an item\<close>

lemma alist_update_fresh:
  "k \<notin> fst ` set al \<Longrightarrow> AList.update k v al = al @ [(k, v)]"
  by (induction al) auto

lemma alist_update_other:
  "k' \<noteq> k \<Longrightarrow> map_of (AList.update k v al) k' = map_of al k'"
  by (simp add: update_conv')

lemma encrypt_data_returns:
  assumes "\<forall>r m. \<forall>b\<in>set (encrypt cs r m). b < 128" and "well_formed text"
  shows "\<exists>ct. encrypt_data cs r text = Inr ct"
proof -
  obtain bs where bs: "str_encode text = Inr bs"
    using str_encode_well_formed [OF assms(2)] by blast
  have "\<forall>b\<in>set (encrypt cs r bs). b < 128"
    using assms(1) by simp
  then show ?thesis
    by (simp add: encrypt_data_def bind_exn_def bs bytes_decode_ascii)
qed

lemma hash_passkey_returns:
  assumes "well_formed passkey"
  shows "\<exists>h. hash_passkey sha256 passkey = Inr h"
  using str_encode_well_formed [OF assms]
  by (auto simp: hash_passkey_def bind_exn_def)

lemma render_store_submit:
  assumes "truthy_user s = Some user" and "data_to_store \<noteq> []" and "passkey_store \<noteq> []"
      and "hash_passkey sha256 passkey_store = Inr h"
      and "encrypt_data cs r data_to_store = Inr ct"
      and "items = (case map_of (stored_data s) user of None \<Rightarrow> [] | Some c \<Rightarrow> c)"
      and "data2 = AList.update user
             (AList.update (data_id_of (length items + 1))
                \<lparr>encrypted_text = ct, passkey_hash = h\<rparr> items) (stored_data s)"
  shows "render_store sha256 cs r (SubmitStore data_to_store passkey_store) s =
           (if disk_writable s
            then (s\<lparr>stored_data := data2, written := Some data2\<rparr>, [StoredSuccessfully], Completed)
            else (s\<lparr>stored_data := data2\<rparr>, [FailedToSave, StoredSuccessfully], Completed))"
proof (cases "map_of (stored_data s) user")
  case None
  then show ?thesis
    using assms
    by (simp add: render_store_def Let_def save_data_def update_conv')
next
  case (Some c)
  then show ?thesis
    using assms
    by (simp add: render_store_def Let_def save_data_def)
qed

text \<open>
  The ids the application assigns are \<open>data_1\<close>, \<open>data_2\<close>, and so on, in order. In a
  collection that holds exactly these, the next id is new.
\<close>

lemma str_of_nat_value: "foldl (\<lambda>a c. 10 * a + (c - 48)) 0 (str_of_nat n) = n"
proof (induction n rule: str_of_nat.induct)
  case (1 n)
  show ?case
  proof (cases "n < 10")
    case True
    then show ?thesis by simp
  next
    case False
    then have "str_of_nat n = str_of_nat (n div 10) @ [48 + n mod 10]"
      by (subst str_of_nat.simps) simp
    then show ?thesis
      using 1 [OF False] by simp
  qed
qed

lemma str_of_nat_inj: "str_of_nat m = str_of_nat n \<Longrightarrow> m = n"
  by (metis str_of_nat_value)

lemma data_id_of_inj: "data_id_of m = data_id_of n \<Longrightarrow> m = n"
  by (simp add: data_id_of_def str_of_nat_inj)

lemma assigned_ids_fresh:
  assumes "map fst items = map data_id_of [1..<length items + 1]"
  shows "data_id_of (length items + 1) \<notin> fst ` set items"
proof
  assume "data_id_of (length items + 1) \<in> fst ` set items"
  then have "data_id_of (length items + 1) \<in> set (map data_id_of [1..<length items + 1])"
    using assms by (metis set_map)
  then obtain k where k: "k \<in> set [1..<length items + 1]"
      and eq: "data_id_of (length items + 1) = data_id_of k"
    by auto
  have "length items + 1 = k"
    using eq by (rule data_id_of_inj)
  then show False
    using k by simp
qed

lemma demo_encrypt_yo:
  "encrypt_data (demo_fernet 7) 9 [121, 111] = Inr [65, 72, 65, 74, 72, 74, 71, 80]"
  by (simp add: encrypt_data_def bind_exn_def str_encode_def utf8_encode_cp_def
      demo_fernet_def demo_armor_def bytes_decode_def utf8_decode_cp.simps)

lemma demo_ids_fresh: "data_id_of (length demo_items + 1) \<notin> fst ` set demo_items"
  by (simp add: demo_items_def data_id_of_def)

text \<open>
  Claim C10, amended. A logged-in user submits the store form; \<open>items\<close> is the user's
  collection before (empty when the user has none). When the text and the passkey are not
  empty and are strings of Unicode scalar values, the tokens of the cipher suite are ASCII,
  and the id \<open>data_\<close> followed by the number of items plus one is not yet an id of the
  collection, then the collection afterwards is \<open>items\<close> followed by one entry under that
  id, which holds the ciphertext of the text and the hash of the passkey; the collections
  of the other users are as before; the new vault is what \<open>save_data\<close> writes, when the
  file can be written; and nothing else of the state changes. When the text or the passkey
  is empty, the state is left as it is (nothing is stored and \<open>save_data\<close> is not called)
  and the page asks for both.
\<close>

theorem store_adds_one_item:
  assumes "truthy_user s = Some user"
      and "items = (case map_of (stored_data s) user of None \<Rightarrow> [] | Some c \<Rightarrow> c)"
      and "out = render_store sha256 cs r (SubmitStore data_to_store passkey_store) s"
  shows "(data_to_store \<noteq> [] \<and> passkey_store \<noteq> []
          \<and> well_formed data_to_store \<and> well_formed passkey_store
          \<and> (\<forall>r m. \<forall>b\<in>set (encrypt cs r m). b < 128)
          \<and> data_id_of (length items + 1) \<notin> fst ` set items
          \<longrightarrow> (\<exists>item. map_of (stored_data (fst out)) user
                         = Some (items @ [(data_id_of (length items + 1), item)])
                    \<and> hash_passkey sha256 passkey_store = Inr (passkey_hash item)
                    \<and> encrypt_data cs r data_to_store = Inr (encrypted_text item))
              \<and> (\<forall>other. other \<noteq> user
                    \<longrightarrow> map_of (stored_data (fst out)) other = map_of (stored_data s) other)
              \<and> written (fst out) = (if disk_writable s then Some (stored_data (fst out)) else written s)
              \<and> fst out = s\<lparr>stored_data := stored_data (fst out), written := written (fst out)\<rparr>)
         \<and> (data_to_store = [] \<or> passkey_store = [] \<longrightarrow> out = (s, [ProvideBoth], Completed))"
proof (intro conjI impI)
  assume "data_to_store = [] \<or> passkey_store = []"
  then show "out = (s, [ProvideBoth], Completed)"
    using assms(1) unfolding assms(3) by (auto simp: render_store_def)
next
  assume hyp: "data_to_store \<noteq> [] \<and> passkey_store \<noteq> []
          \<and> well_formed data_to_store \<and> well_formed passkey_store
          \<and> (\<forall>r m. \<forall>b\<in>set (encrypt cs r m). b < 128)
          \<and> data_id_of (length items + 1) \<notin> fst ` set items"
  obtain h where h: "hash_passkey sha256 passkey_store = Inr h"
    using hash_passkey_returns hyp by blast
  have ascii: "\<forall>r m. \<forall>b\<in>set (encrypt cs r m). b < 128" and wf: "well_formed data_to_store"
    using hyp by simp_all
  obtain ct where ct: "encrypt_data cs r data_to_store = Inr ct"
    using encrypt_data_returns [OF ascii wf, of r] by blast
  define item where "item = \<lparr>encrypted_text = ct, passkey_hash = h\<rparr>"
  define data2 where "data2 = AList.update user
      (AList.update (data_id_of (length items + 1)) item items) (stored_data s)"
  have out: "out = (if disk_writable s
            then (s\<lparr>stored_data := data2, written := Some data2\<rparr>, [StoredSuccessfully], Completed)
            else (s\<lparr>stored_data := data2\<rparr>, [FailedToSave, StoredSuccessfully], Completed))"
    unfolding assms(3) using hyp
    by (intro render_store_submit [OF assms(1) _ _ h ct assms(2)]) (simp_all add: data2_def item_def)
  have appended: "AList.update (data_id_of (length items + 1)) item items
                    = items @ [(data_id_of (length items + 1), item)]"
    using hyp by (intro alist_update_fresh) blast
  have "map_of (stored_data (fst out)) user = Some (items @ [(data_id_of (length items + 1), item)])"
    unfolding out using appended by (simp add: data2_def update_conv')
  then show "\<exists>item. map_of (stored_data (fst out)) user
                         = Some (items @ [(data_id_of (length items + 1), item)])
                    \<and> hash_passkey sha256 passkey_store = Inr (passkey_hash item)
                    \<and> encrypt_data cs r data_to_store = Inr (encrypted_text item)"
    using h ct by (intro exI [of _ item]) (simp add: item_def)
  show "\<forall>other. other \<noteq> user
          \<longrightarrow> map_of (stored_data (fst out)) other = map_of (stored_data s) other"
    unfolding out by (simp add: data2_def update_conv')
  show "written (fst out) = (if disk_writable s then Some (stored_data (fst out)) else written s)"
    unfolding out by simp
  show "fst out = s\<lparr>stored_data := stored_data (fst out), written := written (fst out)\<rparr>"
    unfolding out by simp
qed

theorem store_adds_one_item_witness:
  "map_of (stored_data (fst (render_store demo_sha256 (demo_fernet 7) 9
       (SubmitStore [121, 111] [107, 50]) demo_state))) alice
     = Some (demo_items @
         [(data_id_of 5, \<lparr>encrypted_text = [65, 72, 65, 74, 72, 74, 71, 80],
                           passkey_hash = hexdigest (demo_sha256 [107, 50])\<rparr>)])
   \<and> render_store demo_sha256 (demo_fernet 7) 9 (SubmitStore [] [107, 50]) demo_state
     = (demo_state, [ProvideBoth], Completed)"
proof -
  have items: "demo_items = (case map_of (stored_data demo_state) alice of None \<Rightarrow> [] | Some c \<Rightarrow> c)"
    by (simp add: demo_state_user)
  have wf: "well_formed [121, 111]" "well_formed [107, 50]"
    by (simp_all add: well_formed_def scalar_value_def)
  have ascii: "\<forall>r m. \<forall>b\<in>set (encrypt (demo_fernet 7) r m). b < 128"
    by (simp add: demo_fernet_ascii)
  have five: "length demo_items + 1 = 5"
    by (simp add: demo_items_def)
  have "\<exists>item. map_of (stored_data (fst (render_store demo_sha256 (demo_fernet 7) 9
                   (SubmitStore [121, 111] [107, 50]) demo_state))) alice
                 = Some (demo_items @ [(data_id_of 5, item)])
          \<and> hash_passkey demo_sha256 [107, 50] = Inr (passkey_hash item)
          \<and> encrypt_data (demo_fernet 7) 9 [121, 111] = Inr (encrypted_text item)"
    using store_adds_one_item [OF demo_state_user(1) items refl,
        where ?sha256.0 = demo_sha256 and cs = "demo_fernet 7" and r = 9
          and data_to_store = "[121, 111]" and passkey_store = "[107, 50]"]
      wf ascii demo_ids_fresh
    unfolding five by blast
  then obtain item where
    "map_of (stored_data (fst (render_store demo_sha256 (demo_fernet 7) 9
         (SubmitStore [121, 111] [107, 50]) demo_state))) alice
       = Some (demo_items @ [(data_id_of 5, item)])"
    "passkey_hash item = hexdigest (demo_sha256 [107, 50])"
    "encrypted_text item = [65, 72, 65, 74, 72, 74, 71, 80]"
    unfolding demo_hashes demo_encrypt_yo by auto
  moreover have "render_store demo_sha256 (demo_fernet 7) 9 (SubmitStore [] [107, 50]) demo_state
                   = (demo_state, [ProvideBoth], Completed)"
    using store_adds_one_item [OF demo_state_user(1) items refl,
        where ?sha256.0 = demo_sha256 and cs = "demo_fernet 7" and r = 9
          and data_to_store = "[]" and passkey_store = "[107, 50]"]
    by blast
  ultimately show ?thesis
    by (cases item) simp
qed

text \<open>
  Claim C10 as stated, for every vault: a collection whose only item has the id \<open>data_2\<close>
  (a data file not written by the application) has one item, so that the id computed for
  the next one is \<open>data_2\<close> again, and the assignment replaces the item stored there.
\<close>

theorem store_overwrites_colliding_id:
  "map_of (stored_data (fst (render_store demo_sha256 (demo_fernet 7) 9
       (SubmitStore [121, 111] [107, 50])
       (demo_state\<lparr>stored_data :=
          [(alice, [(data_id_of 2, \<lparr>encrypted_text = [65, 72, 65, 74, 71, 73, 71, 74],
                                    passkey_hash = hexdigest (demo_sha256 [107, 49])\<rparr>)])]\<rparr>)))) alice
     = Some [(data_id_of 2, \<lparr>encrypted_text = [65, 72, 65, 74, 72, 74, 71, 80],
                              passkey_hash = hexdigest (demo_sha256 [107, 50])\<rparr>)]"
proof -
  define s where "s = demo_state\<lparr>stored_data :=
          [(alice, [(data_id_of 2, \<lparr>encrypted_text = [65, 72, 65, 74, 71, 73, 71, 74],
                                    passkey_hash = hexdigest (demo_sha256 [107, 49])\<rparr>)])]\<rparr>"
  have user: "truthy_user s = Some alice"
    by (simp add: s_def demo_state_def truthy_user_def alice_def)
  have stored: "map_of (stored_data s) alice
      = Some [(data_id_of 2, \<lparr>encrypted_text = [65, 72, 65, 74, 71, 73, 71, 74],
                               passkey_hash = hexdigest (demo_sha256 [107, 49])\<rparr>)]"
    by (simp add: s_def)
  have "stored_data (fst (render_store demo_sha256 (demo_fernet 7) 9
            (SubmitStore [121, 111] [107, 50]) s))
        = AList.update alice
            (AList.update (data_id_of 2)
               \<lparr>encrypted_text = [65, 72, 65, 74, 72, 74, 71, 80],
                  passkey_hash = hexdigest (demo_sha256 [107, 50])\<rparr>
               [(data_id_of 2, \<lparr>encrypted_text = [65, 72, 65, 74, 71, 73, 71, 74],
                                 passkey_hash = hexdigest (demo_sha256 [107, 49])\<rparr>)])
            (stored_data s)"
    using render_store_submit [OF user _ _ demo_hashes(2) demo_encrypt_yo refl refl]
    by (simp add: stored numeral_2_eq_2)
  then show ?thesis
    unfolding s_def [symmetric] by (simp add: update_conv')
qed

end
